theory Spec2Isabelle
  imports Complex_Main
begin

section \<open>Double-precision values\<close>

text \<open>
  The kernel computes on C++ \<open>double\<close>, the IEEE 754 binary64 format. A \<open>double\<close> is modelled
  as a finite real number or one of the special values: negative zero, the two infinities and
  NaN. \<open>Fin 0\<close> is positive zero. The finite \<open>double\<close>s are the reals that \<open>rnd\<close> leaves
  unchanged; the arguments of the theorems below are arbitrary reals, which covers them.
\<close>

datatype double = Fin real | NZero | PInf | NInf | NaN

fun signbit :: "double \<Rightarrow> bool" where
  "signbit (Fin x) = (x < 0)"
| "signbit NZero = True"
| "signbit PInf = False"
| "signbit NInf = True"
| "signbit NaN = False"

fun val :: "double \<Rightarrow> real" where
  "val (Fin x) = x"
| "val NZero = 0"
| "val PInf = 0"
| "val NInf = 0"
| "val NaN = 0"

definition is_zero :: "double \<Rightarrow> bool" where
  "is_zero a = (a = Fin 0 \<or> a = NZero)"

definition is_inf :: "double \<Rightarrow> bool" where
  "is_inf a = (a = PInf \<or> a = NInf)"

fun is_finite :: "double \<Rightarrow> bool" where
  "is_finite (Fin x) = True"
| "is_finite NZero = True"
| "is_finite PInf = False"
| "is_finite NInf = False"
| "is_finite NaN = False"

definition zero_of :: "bool \<Rightarrow> double" where
  "zero_of neg = (if neg then NZero else Fin 0)"

definition inf_of :: "bool \<Rightarrow> double" where
  "inf_of neg = (if neg then NInf else PInf)"

subsection \<open>Rounding to binary64\<close>

text \<open>
  \<open>pw k\<close> is \<open>2\<^sup>k\<close>. The exponent of a real is that of its binade, not below \<open>-1022\<close>, where the
  subnormal numbers begin; a unit in the last place is \<open>2\<^sup>-\<^sup>5\<^sup>2\<close> times the binade. \<open>rnd\<close>
  rounds a real to the nearest multiple of its unit in the last place, ties to the even
  multiple (the default rounding of IEEE 754): a result of magnitude \<open>2\<^sup>1\<^sup>0\<^sup>2\<^sup>4\<close> or more is an
  infinity (overflow), and a nonzero real that rounds to \<open>0\<close> is a zero with its sign
  (underflow).
\<close>

definition pw :: "int \<Rightarrow> real" where
  "pw k = 2 powi k"

definition expo :: "real \<Rightarrow> int" where
  "expo x = (if x = 0 then - 1022 else max \<lfloor>log 2 \<bar>x\<bar>\<rfloor> (- 1022))"

definition ulp :: "real \<Rightarrow> real" where
  "ulp x = pw (expo x - 52)"

definition rne :: "real \<Rightarrow> int" where
  "rne m =
     (let f = \<lfloor>m\<rfloor>
      in if m - of_int f < 1/2 then f
         else if 1/2 < m - of_int f then f + 1
         else if even f then f else f + 1)"

definition rnd :: "real \<Rightarrow> double" where
  "rnd x =
     (if x = 0 then Fin 0
      else let y = of_int (rne (x / ulp x)) * ulp x
           in if pw 1024 \<le> \<bar>y\<bar> then inf_of (x < 0)
              else if y = 0 then zero_of (x < 0)
              else Fin y)"

definition rval :: "real \<Rightarrow> real" where
  "rval x = of_int (rne (x / ulp x)) * ulp x"

subsection \<open>Arithmetic\<close>

text \<open>
  Each operation follows the IEEE rules on the special values and rounds the exact result on
  finite operands. No operation of a \<open>double\<close> raises an error.
\<close>

text \<open>Unary minus flips the sign, also of a zero and of an infinity.\<close>

fun dneg :: "double \<Rightarrow> double" where
  "dneg (Fin x) = (if x = 0 then NZero else Fin (- x))"
| "dneg NZero = Fin 0"
| "dneg PInf = NInf"
| "dneg NInf = PInf"
| "dneg NaN = NaN"

text \<open>Addition: \<open>inf + (-inf)\<close> is NaN; a sum of zeros is \<open>-0\<close> only when both are.\<close>

fun dadd :: "double \<Rightarrow> double \<Rightarrow> double" where
  "dadd NaN b = NaN"
| "dadd a NaN = NaN"
| "dadd PInf NInf = NaN"
| "dadd NInf PInf = NaN"
| "dadd PInf b = PInf"
| "dadd a PInf = PInf"
| "dadd NInf b = NInf"
| "dadd a NInf = NInf"
| "dadd NZero NZero = NZero"
| "dadd NZero (Fin y) = Fin y"
| "dadd (Fin x) NZero = Fin x"
| "dadd (Fin x) (Fin y) = rnd (x + y)"

definition dsub :: "double \<Rightarrow> double \<Rightarrow> double" where
  "dsub a b = dadd a (dneg b)"

text \<open>Multiplication: \<open>inf * 0\<close> is NaN; the sign of the result is the exclusive or of the signs.\<close>

definition dmul :: "double \<Rightarrow> double \<Rightarrow> double" where
  "dmul a b =
     (if a = NaN \<or> b = NaN then NaN
      else if (is_inf a \<and> is_zero b) \<or> (is_zero a \<and> is_inf b) then NaN
      else if is_inf a \<or> is_inf b then inf_of (signbit a \<noteq> signbit b)
      else if val a * val b = 0 then zero_of (signbit a \<noteq> signbit b)
      else rnd (val a * val b))"

text \<open>
  Division: \<open>0 / 0\<close> and \<open>inf / inf\<close> are NaN; a nonzero finite number divided by a zero is
  an infinity.
\<close>

definition ddiv :: "double \<Rightarrow> double \<Rightarrow> double" where
  "ddiv a b =
     (if a = NaN \<or> b = NaN then NaN
      else if (is_inf a \<and> is_inf b) \<or> (is_zero a \<and> is_zero b) then NaN
      else if is_inf a then inf_of (signbit a \<noteq> signbit b)
      else if is_inf b then zero_of (signbit a \<noteq> signbit b)
      else if is_zero b then inf_of (signbit a \<noteq> signbit b)
      else if is_zero a then zero_of (signbit a \<noteq> signbit b)
      else rnd (val a / val b))"

subsection \<open>Comparisons\<close>

text \<open>\<open>a <= b\<close> and \<open>a == b\<close>: false when either is NaN; \<open>-0\<close> equals \<open>+0\<close>.\<close>

fun dle :: "double \<Rightarrow> double \<Rightarrow> bool" where
  "dle NaN b = False"
| "dle a NaN = False"
| "dle NInf b = True"
| "dle a PInf = True"
| "dle PInf b = False"
| "dle a NInf = False"
| "dle a b = (val a \<le> val b)"

definition deq :: "double \<Rightarrow> double \<Rightarrow> bool" where
  "deq a b = (a \<noteq> NaN \<and> b \<noteq> NaN \<and> (a = b \<or> (is_zero a \<and> is_zero b)))"

subsection \<open>The functions of \<open>cmath\<close>\<close>

text \<open>
  The library functions follow Annex F of the C standard on the special values. On finite
  arguments they are taken as correctly rounded, which IEEE 754 requires of \<open>sqrt\<close> and recommends
  for the others.
\<close>

text \<open>\<open>std::sqrt\<close>: NaN below zero, \<open>sqrt(-0) = -0\<close>.\<close>

fun dsqrt :: "double \<Rightarrow> double" where
  "dsqrt (Fin x) = (if x < 0 then NaN else rnd (sqrt x))"
| "dsqrt NZero = NZero"
| "dsqrt PInf = PInf"
| "dsqrt NInf = NaN"
| "dsqrt NaN = NaN"

text \<open>\<open>std::log\<close>: \<open>-inf\<close> at a zero, NaN below zero.\<close>

fun dlog :: "double \<Rightarrow> double" where
  "dlog (Fin x) = (if x = 0 then NInf else if x < 0 then NaN else rnd (ln x))"
| "dlog NZero = NInf"
| "dlog PInf = PInf"
| "dlog NInf = NaN"
| "dlog NaN = NaN"

text \<open>\<open>std::exp\<close>: overflows to \<open>+inf\<close> and underflows to \<open>+0\<close>.\<close>

fun dexp :: "double \<Rightarrow> double" where
  "dexp (Fin x) = rnd (exp x)"
| "dexp NZero = Fin 1"
| "dexp PInf = PInf"
| "dexp NInf = Fin 0"
| "dexp NaN = NaN"

text \<open>
  The error function on the reals, by its Maclaurin series
  \<open>erf x = 2/\<surd>\<pi> \<cdot> \<Sum>m. (-1)^m x^(2m+1) / (m! (2m+1))\<close>; the series without its factor is
  the integral of \<open>exp (- t\<^sup>2)\<close> from \<open>0\<close> to \<open>x\<close>.
\<close>

definition gauss_coeff :: "nat \<Rightarrow> real" where
  "gauss_coeff n = (if odd n then (- 1) ^ (n div 2) / (fact (n div 2) * real n) else 0)"

definition gauss_int :: "real \<Rightarrow> real" where
  "gauss_int x = (\<Sum>n. gauss_coeff n * x ^ n)"

definition erf :: "real \<Rightarrow> real" where
  "erf x = 2 / sqrt pi * gauss_int x"

definition erfc :: "real \<Rightarrow> real" where
  "erfc x = 1 - erf x"

text \<open>\<open>std::erfc\<close>: \<open>erfc(-inf) = 2\<close>, \<open>erfc(+inf) = 0\<close>; underflows to \<open>+0\<close>.\<close>

fun derfc :: "double \<Rightarrow> double" where
  "derfc (Fin x) = rnd (erfc x)"
| "derfc NZero = Fin 1"
| "derfc PInf = Fin 0"
| "derfc NInf = Fin 2"
| "derfc NaN = NaN"

section \<open>The pricing kernel (\<open>black_scholes.cpp\<close>)\<close>

datatype OptionType = CALL | PUT

record Greeks =
  delta :: double
  gamma :: double
  vega :: double
  theta :: double

text \<open>\<open>norm_cdf(x) = erfc(-x / sqrt(2.0)) / 2.0\<close>\<close>

definition norm_cdf :: "double \<Rightarrow> double" where
  "norm_cdf x = ddiv (derfc (ddiv (dneg x) (dsqrt (Fin 2)))) (Fin 2)"

text \<open>The literal \<open>0.3989422804014327\<close>, rounded to a \<open>double\<close> as the compiler does.\<close>

definition INV_SQRT_2PI :: double where
  "INV_SQRT_2PI = rnd (3989422804014327 / 10 ^ 16)"

text \<open>\<open>norm_pdf(x) = INV_SQRT_2PI * exp(-0.5 * x * x)\<close>\<close>

definition norm_pdf :: "double \<Rightarrow> double" where
  "norm_pdf x = dmul INV_SQRT_2PI (dexp (dmul (dmul (dneg (Fin (1/2))) x) x))"

text \<open>\<open>d1 = (log(S / K) + (r + 0.5 * sigma * sigma) * T) / (sigma * sqrt(T))\<close>\<close>

definition d1 :: "double \<Rightarrow> double \<Rightarrow> double \<Rightarrow> double \<Rightarrow> double \<Rightarrow> double" where
  "d1 S K r sigma T =
     ddiv (dadd (dlog (ddiv S K)) (dmul (dadd r (dmul (dmul (Fin (1/2)) sigma) sigma)) T))
          (dmul sigma (dsqrt T))"

text \<open>\<open>d2 = d1_val - sigma * sqrt(T)\<close>\<close>

definition d2 :: "double \<Rightarrow> double \<Rightarrow> double \<Rightarrow> double" where
  "d2 d1_val sigma T = dsub d1_val (dmul sigma (dsqrt T))"

definition price_option ::
  "double \<Rightarrow> double \<Rightarrow> double \<Rightarrow> double \<Rightarrow> double \<Rightarrow> OptionType \<Rightarrow> double" where
  "price_option S K r sigma T otype =
     (let d1v = d1 S K r sigma T;
          d2v = d2 d1v sigma T;
          disc = dexp (dmul (dneg r) T)
      in if otype = CALL
         then dsub (dmul S (norm_cdf d1v)) (dmul (dmul K disc) (norm_cdf d2v))
         else dsub (dmul (dmul K disc) (norm_cdf (dneg d2v))) (dmul S (norm_cdf (dneg d1v))))"

definition compute_greeks ::
  "double \<Rightarrow> double \<Rightarrow> double \<Rightarrow> double \<Rightarrow> double \<Rightarrow> OptionType \<Rightarrow> Greeks" where
  "compute_greeks S K r sigma T otype =
     (let d1v = d1 S K r sigma T;
          d2v = d2 d1v sigma T;
          sqrtT = dsqrt T;
          disc = dexp (dmul (dneg r) T);
          npd1 = norm_pdf d1v;
          g0 = \<lparr>delta = Fin 0, gamma = Fin 0, vega = Fin 0, theta = Fin 0\<rparr>;
          g1 = (if otype = CALL
                then g0\<lparr>delta := norm_cdf d1v\<rparr>
                else g0\<lparr>delta := dsub (norm_cdf d1v) (Fin 1)\<rparr>);
          g2 = g1\<lparr>gamma := ddiv npd1 (dmul (dmul S sigma) sqrtT)\<rparr>;
          g3 = g2\<lparr>vega := ddiv (dmul (dmul S npd1) sqrtT) (Fin 100)\<rparr>;
          common_term = ddiv (dneg (dmul (dmul S npd1) sigma)) (dmul (Fin 2) sqrtT)
      in if otype = CALL
         then g3\<lparr>theta := ddiv (dsub common_term
                                   (dmul (dmul (dmul r K) disc) (norm_cdf d2v))) (Fin 365)\<rparr>
         else g3\<lparr>theta := ddiv (dadd common_term
                                   (dmul (dmul (dmul r K) disc) (norm_cdf (dneg d2v)))) (Fin 365)\<rparr>)"

section \<open>The batch evaluator (\<open>batch_pricer.hpp\<close>, \<open>price_batch\<close>)\<close>

text \<open>
  The fields of the source's \<open>Contract\<close> are \<open>S\<close>, \<open>K\<close>, \<open>r\<close>, \<open>sigma\<close>, \<open>T\<close> and
  \<open>option_type\<close>; the numeric ones carry the prefix \<open>c_\<close> here, to keep the one-letter names
  free for variables.
\<close>

record Contract =
  c_S :: double
  c_K :: double
  c_r :: double
  c_sigma :: double
  c_T :: double
  option_type :: OptionType

text \<open>
  The state of a run of \<open>price_batch\<close>: the caller's vector \<open>contracts\<close>, passed by
  reference, and the local vector \<open>prices\<close>.
\<close>

record batch_state =
  contracts :: "Contract list"
  prices :: "double list"

definition price_contract :: "Contract \<Rightarrow> double" where
  "price_contract c = price_option (c_S c) (c_K c) (c_r c) (c_sigma c) (c_T c) (option_type c)"

text \<open>The range-for loop, from position \<open>i\<close> on: each pass pushes one price.\<close>

function price_batch_loop :: "nat \<Rightarrow> batch_state \<Rightarrow> batch_state" where
  "price_batch_loop i st =
     (if i < length (contracts st)
      then price_batch_loop (Suc i)
             (st\<lparr>prices := prices st @ [price_contract (contracts st ! i)]\<rparr>)
      else st)"
  by pat_completeness auto
termination
  by (relation "measure (\<lambda>(i, st). length (contracts st) - i)") auto

declare price_batch_loop.simps [simp del]

definition price_batch_run :: "Contract list \<Rightarrow> batch_state" where
  "price_batch_run cs = price_batch_loop 0 \<lparr>contracts = cs, prices = []\<rparr>"

definition price_batch :: "Contract list \<Rightarrow> double list" where
  "price_batch cs = prices (price_batch_run cs)"

text \<open>The contract of the sample run in the repository's README.\<close>

definition sample_contract :: Contract where
  "sample_contract =
     \<lparr>c_S = Fin 100, c_K = Fin 105, c_r = Fin (1/20), c_sigma = Fin (1/5), c_T = Fin (1/2),
      option_type = CALL\<rparr>"

section \<open>The parity check of \<open>test_pricing.cpp\<close>\<close>



section \<open>The closed-form formulas of the specification\<close>


definition spec_d1 :: "double \<Rightarrow> double \<Rightarrow> double \<Rightarrow> double \<Rightarrow> double \<Rightarrow> double" where
  "spec_d1 S K r sigma T =
     ddiv (dadd (dlog (ddiv S K)) (dmul (dadd r (ddiv (dmul sigma sigma) (Fin 2))) T))
          (dmul sigma (dsqrt T))"

definition spec_d2 :: "double \<Rightarrow> double \<Rightarrow> double \<Rightarrow> double \<Rightarrow> double \<Rightarrow> double" where
  "spec_d2 S K r sigma T = dsub (spec_d1 S K r sigma T) (dmul sigma (dsqrt T))"





section \<open>Properties of rounding\<close>

subsection \<open>Powers of two\<close>

lemma pw_pos [simp]: "0 < pw k"
  by (simp add: pw_def)

lemma pw_nonneg [simp]: "0 \<le> pw k"
  by (simp add: pw_def)

lemma pw_neq0 [simp]: "pw k \<noteq> 0"
  by (simp add: pw_def)

lemma pw_not_le0 [simp]: "\<not> pw k \<le> 0"
  by (simp add: pw_def not_le)

lemma pw_not_less0 [simp]: "\<not> pw k < 0"
  by (simp add: pw_def not_less)

lemma pw_add: "pw (j + k) = pw j * pw k"
  unfolding pw_def by (rule power_int_add) simp

lemma pw_diff: "pw (j - k) = pw j / pw k"
  unfolding pw_def by (rule power_int_diff) simp

lemma pw_0 [simp]: "pw 0 = 1"
  by (simp add: pw_def)

lemma pw_1 [simp]: "pw 1 = 2"
  by (simp add: pw_def)

lemma pw_m1 [simp]: "pw (- 1) = 1 / 2"
  by (simp add: pw_def power_int_minus inverse_eq_divide)

lemma pw_Suc: "pw (k + 1) = 2 * pw k"
  by (simp add: pw_add)

lemma pw_half: "pw (k - 1) = pw k / 2"
  by (simp add: pw_diff)

lemma pw_mono: "j \<le> k \<Longrightarrow> pw j \<le> pw k"
  unfolding pw_def by (rule power_int_increasing) simp_all

lemma pw_strict_mono: "j < k \<Longrightarrow> pw j < pw k"
  unfolding pw_def by (rule power_int_strict_increasing) simp_all

lemma pw_nat: "0 \<le> j \<Longrightarrow> pw j = of_int (2 ^ nat j)"
  by (simp add: pw_def power_int_def)

lemma two_powr_pw: "(2::real) powr of_int k = pw k"
  by (simp add: pw_def powr_real_of_int power_int_def power_inverse power_one_over
      inverse_eq_divide)

subsection \<open>Rounding to an integer, ties to even\<close>

lemma rne_bounds: "\<lfloor>m\<rfloor> \<le> rne m \<and> rne m \<le> \<lceil>m\<rceil>"
proof -
  have "\<lfloor>m\<rfloor> + 1 \<le> \<lceil>m\<rceil>" if "m - of_int \<lfloor>m\<rfloor> \<noteq> 0"
    using that by linarith
  moreover have "\<lfloor>m\<rfloor> \<le> \<lceil>m\<rceil>" by linarith
  ultimately show ?thesis
    by (auto simp: rne_def Let_def)
qed

lemma rne_err: "\<bar>of_int (rne m) - m\<bar> \<le> 1/2"
  unfolding rne_def Let_def by (auto; linarith)

lemma rne_of_int [simp]: "rne (of_int k) = k"
  by (simp add: rne_def)

lemma rne_0 [simp]: "rne 0 = 0"
  using rne_of_int [of 0] by simp

lemma rne_minus: "rne (- m) = - rne m"
proof (cases "m = of_int \<lfloor>m\<rfloor>")
  case True
  then obtain k where "m = of_int k" ..
  then show ?thesis by (simp flip: of_int_minus)
next
  case False
  then have fl: "\<lfloor>- m\<rfloor> = - \<lfloor>m\<rfloor> - 1"
    by linarith
  have ev: "even (- \<lfloor>m\<rfloor> - 1) \<longleftrightarrow> odd \<lfloor>m\<rfloor>" by simp
  show ?thesis
    unfolding rne_def Let_def fl ev
    by (auto; linarith)
qed

lemma rne_nonneg: "0 \<le> m \<Longrightarrow> 0 \<le> rne m"
  using rne_bounds [of m] zero_le_floor [of m] by linarith

lemma rne_le_int: "m \<le> of_int k \<Longrightarrow> rne m \<le> k"
  using rne_bounds [of m] ceiling_le [of m k] by linarith

lemma rne_ge_int: "of_int k \<le> m \<Longrightarrow> k \<le> rne m"
  using rne_bounds [of m] le_floor_iff [of k m] by linarith

lemma rne_half:
  assumes "\<bar>m\<bar> \<le> 1 / 2"
  shows "rne m = 0"
proof (cases "0 \<le> m")
  case True
  with assms have "\<lfloor>m\<rfloor> = 0" by linarith
  with True assms show ?thesis by (auto simp: rne_def Let_def)
next
  case False
  with assms have "\<lfloor>m\<rfloor> = - 1" by linarith
  with False assms show ?thesis by (auto simp: rne_def Let_def)
qed

subsection \<open>Exponent and unit in the last place\<close>

lemma ulp_pos [simp]: "0 < ulp x"
  by (simp add: ulp_def)

lemma ulp_nonneg [simp]: "0 \<le> ulp x"
  by (simp add: ulp_def)

lemma ulp_neq0 [simp]: "ulp x \<noteq> 0"
  by (simp add: ulp_def)

lemma expo_minus [simp]: "expo (- x) = expo x"
  by (simp add: expo_def)

lemma ulp_minus [simp]: "ulp (- x) = ulp x"
  by (simp add: ulp_def)

lemma expo_ge: "- 1022 \<le> expo x"
  by (simp add: expo_def)

lemma abs_less_expo:
  assumes "x \<noteq> 0"
  shows "\<bar>x\<bar> < pw (expo x + 1)"
proof -
  have "\<bar>x\<bar> < 2 powr (of_int (\<lfloor>log 2 \<bar>x\<bar>\<rfloor> + 1))"
    using assms floor_log_eq_powr_iff [of "\<bar>x\<bar>" 2 "\<lfloor>log 2 \<bar>x\<bar>\<rfloor>"] by simp
  also have "\<dots> = pw (\<lfloor>log 2 \<bar>x\<bar>\<rfloor> + 1)"
    by (rule two_powr_pw)
  also have "\<dots> \<le> pw (expo x + 1)"
    by (rule pw_mono) (simp add: expo_def assms)
  finally show ?thesis .
qed

lemma expo_le_abs:
  assumes "x \<noteq> 0" "- 1022 < expo x"
  shows "pw (expo x) \<le> \<bar>x\<bar>"
proof -
  have e: "expo x = \<lfloor>log 2 \<bar>x\<bar>\<rfloor>"
    using assms by (simp add: expo_def max_def split: if_splits)
  have "2 powr (of_int \<lfloor>log 2 \<bar>x\<bar>\<rfloor>) \<le> \<bar>x\<bar>"
    using assms(1) floor_log_eq_powr_iff [of "\<bar>x\<bar>" 2 "\<lfloor>log 2 \<bar>x\<bar>\<rfloor>"] by simp
  then show ?thesis unfolding e two_powr_pw .
qed

lemma expo_eqI:
  assumes "pw k \<le> \<bar>x\<bar>" "\<bar>x\<bar> < pw (k + 1)" "- 1022 \<le> k"
  shows "expo x = k"
proof -
  have "0 < pw k" by simp
  with assms(1) have pos: "0 < \<bar>x\<bar>" by linarith
  have a: "2 powr of_int k \<le> \<bar>x\<bar>" using assms(1) by (simp only: two_powr_pw)
  have "\<bar>x\<bar> < 2 powr of_int (k + 1)" using assms(2) by (simp only: two_powr_pw)
  then have b: "\<bar>x\<bar> < 2 powr (of_int k + 1)" by simp
  have "\<lfloor>log 2 \<bar>x\<bar>\<rfloor> = k"
    using a b floor_log_eq_powr_iff [of "\<bar>x\<bar>" 2 k] pos by simp
  then show ?thesis using assms(3) pos by (simp add: expo_def)
qed

lemma expo_subnormal:
  assumes "\<bar>x\<bar> < pw (- 1022)"
  shows "expo x = - 1022"
proof (cases "x = 0")
  case True
  then show ?thesis by (simp add: expo_def)
next
  case False
  show ?thesis
  proof (rule ccontr)
    assume "expo x \<noteq> - 1022"
    then have "- 1022 < expo x" using expo_ge [of x] by simp
    from expo_le_abs [OF False this] have "pw (expo x) \<le> \<bar>x\<bar>" .
    moreover have "pw (- 1022) \<le> pw (expo x)"
      by (rule pw_mono) (rule expo_ge)
    ultimately show False using assms by simp
  qed
qed

lemma expo_le:
  assumes "\<bar>x\<bar> < pw (k + 1)" "- 1022 \<le> k"
  shows "expo x \<le> k"
proof (cases "x = 0")
  case True
  then show ?thesis using assms(2) by (simp add: expo_def)
next
  case False
  show ?thesis
  proof (rule ccontr)
    assume "\<not> expo x \<le> k"
    then have k: "k + 1 \<le> expo x" by simp
    then have "- 1022 < expo x" using assms(2) by simp
    from expo_le_abs [OF False this] have "pw (expo x) \<le> \<bar>x\<bar>" .
    moreover have "pw (k + 1) \<le> pw (expo x)"
      using k by (rule pw_mono)
    ultimately show False using assms(1) by simp
  qed
qed

subsection \<open>Rounding to a \<open>double\<close>\<close>

lemma rnd_alt:
  "rnd x = (if x = 0 then Fin 0
            else if pw 1024 \<le> \<bar>rval x\<bar> then inf_of (x < 0)
            else if rval x = 0 then zero_of (x < 0)
            else Fin (rval x))"
  by (simp add: rnd_def rval_def Let_def)

lemma rval_0 [simp]: "rval 0 = 0"
  by (simp add: rval_def)

lemma rnd_0 [simp]: "rnd 0 = Fin 0"
  by (simp add: rnd_def)

lemma rval_err: "\<bar>rval x - x\<bar> \<le> ulp x / 2"
proof -
  have "\<bar>of_int (rne (x / ulp x)) - x / ulp x\<bar> * ulp x \<le> 1 / 2 * ulp x"
    by (rule mult_right_mono [OF rne_err]) simp
  moreover have "\<bar>of_int (rne (x / ulp x)) - x / ulp x\<bar> * ulp x = \<bar>rval x - x\<bar>"
  proof -
    have "\<bar>of_int (rne (x / ulp x)) - x / ulp x\<bar> * ulp x
            = \<bar>(of_int (rne (x / ulp x)) - x / ulp x) * ulp x\<bar>"
      by (simp add: abs_mult)
    also have "(of_int (rne (x / ulp x)) - x / ulp x) * ulp x = rval x - x"
      by (simp add: rval_def left_diff_distrib)
    finally show ?thesis .
  qed
  ultimately show ?thesis by simp
qed

lemma rval_minus: "rval (- x) = - rval x"
  by (simp add: rval_def rne_minus)

lemma rval_nonneg: "0 \<le> x \<Longrightarrow> 0 \<le> rval x"
proof -
  assume "0 \<le> x"
  then have "0 \<le> x / ulp x" by simp
  then have "0 \<le> rne (x / ulp x)" by (rule rne_nonneg)
  then show ?thesis by (simp add: rval_def)
qed

lemma rval_nonpos: "x \<le> 0 \<Longrightarrow> rval x \<le> 0"
  using rval_nonneg [of "- x"] by (simp add: rval_minus)

lemma ulp_le_sum: "ulp x \<le> pw (- 52) * \<bar>x\<bar> + pw (- 1074)"
proof (cases "x \<noteq> 0 \<and> - 1022 < expo x")
  case True
  then have "pw (expo x) \<le> \<bar>x\<bar>" by (simp add: expo_le_abs)
  then have "pw (- 52) * pw (expo x) \<le> pw (- 52) * \<bar>x\<bar>"
    by (intro mult_left_mono) simp_all
  moreover have "ulp x = pw (- 52) * pw (expo x)"
    unfolding ulp_def by (simp flip: pw_add)
  moreover have "0 \<le> pw (- 1074)" by simp
  ultimately show ?thesis by linarith
next
  case False
  then have "expo x = - 1022" using expo_ge [of x] by (auto simp: expo_def)
  then have "ulp x = pw (- 1074)" by (simp add: ulp_def)
  moreover have "0 \<le> pw (- 52) * \<bar>x\<bar>" by simp
  ultimately show ?thesis by linarith
qed

text \<open>The error of rounding.\<close>

lemma rval_err_rel: "\<bar>rval x - x\<bar> \<le> pw (- 53) * \<bar>x\<bar> + pw (- 1075)"
proof -
  have a: "pw (- 53) = pw (- 52) / 2" using pw_half [of "- 52"] by simp
  have b: "pw (- 1075) = pw (- 1074) / 2" using pw_half [of "- 1074"] by simp
  from rval_err [of x] ulp_le_sum [of x] show ?thesis
    unfolding a b by (simp add: field_simps)
qed

lemma rnd_val:
  assumes "\<bar>rval x\<bar> < pw 1024"
  shows "is_finite (rnd x) \<and> val (rnd x) = rval x"
  using assms by (auto simp: rnd_alt zero_of_def)

lemma rval_bound:
  assumes "\<bar>x\<bar> \<le> pw 1023"
  shows "\<bar>rval x\<bar> < pw 1024"
proof -
  have "pw (- 53) * \<bar>x\<bar> \<le> pw (- 53) * pw 1023"
    using assms by (intro mult_left_mono) simp_all
  also have "\<dots> = pw 970" by (simp flip: pw_add)
  finally have a: "pw (- 53) * \<bar>x\<bar> \<le> pw 970" .
  have b: "pw 970 < pw 1022" by (rule pw_strict_mono) simp
  have c: "pw (- 1075) < pw 1022" by (rule pw_strict_mono) simp
  have d: "pw 1023 = 2 * pw 1022" using pw_Suc [of 1022] by simp
  have e: "pw 1024 = 2 * pw 1023" using pw_Suc [of 1023] by simp
  from rval_err_rel [of x] assms a b c d e show ?thesis by linarith
qed

lemma rnd_finite:
  assumes "\<bar>x\<bar> \<le> pw 1023"
  shows "is_finite (rnd x)" "val (rnd x) = rval x"
  using rnd_val [OF rval_bound [OF assms]] by simp_all



lemma rnd_signbit: "signbit (rnd x) = (x < 0)"
proof -
  consider "x = 0" | "0 < x" | "x < 0" by linarith
  then show ?thesis
  proof cases
    case 1
    then show ?thesis by (simp add: rnd_alt)
  next
    case 2
    with rval_nonneg [of x] show ?thesis
      by (auto simp: rnd_alt inf_of_def zero_of_def)
  next
    case 3
    with rval_nonpos [of x] show ?thesis
      by (auto simp: rnd_alt inf_of_def zero_of_def)
  qed
qed

lemma rnd_not_NaN [simp]: "rnd x \<noteq> NaN"
  by (auto simp: rnd_alt inf_of_def zero_of_def)

text \<open>Rounding does not cross a power of two.\<close>

lemma rval_pw:
  assumes "- 1022 \<le> k"
  shows "rval (pw k) = pw k"
proof -
  have e: "expo (pw k) = k"
    by (rule expo_eqI) (simp_all add: assms pw_strict_mono)
  have "pw k / ulp (pw k) = pw 52"
    unfolding ulp_def e by (simp flip: pw_diff)
  also have "\<dots> = of_int (2 ^ 52)" by (simp add: pw_nat)
  finally have "rne (pw k / ulp (pw k)) = 2 ^ 52" by (simp only: rne_of_int)
  then have "rval (pw k) = of_int (2 ^ 52) * ulp (pw k)" by (simp add: rval_def)
  also have "\<dots> = pw 52 * pw (k - 52)" by (simp add: ulp_def e pw_nat)
  also have "\<dots> = pw k" by (simp flip: pw_add)
  finally show ?thesis .
qed

lemma rval_le_pw:
  assumes "0 \<le> x" "x \<le> pw k" "- 1022 \<le> k"
  shows "rval x \<le> pw k"
proof (cases "x = pw k")
  case True
  then show ?thesis using rval_pw [OF assms(3)] by simp
next
  case False
  with assms have lt: "\<bar>x\<bar> < pw (k - 1 + 1)" by simp
  have ek: "expo x \<le> k"
  proof (cases "- 1022 \<le> k - 1")
    case True
    from expo_le [OF lt True] show ?thesis by simp
  next
    case False
    then have "k = - 1022" using assms(3) by simp
    with lt have "\<bar>x\<bar> < pw (- 1022)" by simp
    from expo_subnormal [OF this] show ?thesis using assms(3) by simp
  qed
  define j where "j = k - (expo x - 52)"
  have j: "0 \<le> j" using ek by (simp add: j_def)
  have "pw k / ulp x = pw j"
    unfolding ulp_def j_def by (simp flip: pw_diff)
  also have "\<dots> = of_int (2 ^ nat j)" using j by (rule pw_nat)
  finally have q: "pw k / ulp x = of_int (2 ^ nat j)" .
  have "x / ulp x \<le> pw k / ulp x"
    using assms(2) by (intro divide_right_mono) simp_all
  then have "rne (x / ulp x) \<le> 2 ^ nat j"
    unfolding q by (rule rne_le_int)
  then have "(of_int (rne (x / ulp x)) :: real) \<le> of_int (2 ^ nat j)"
    by (simp only: of_int_le_iff)
  then have "rval x \<le> of_int (2 ^ nat j) * ulp x"
    unfolding rval_def by (intro mult_right_mono) simp_all
  also have "\<dots> = pw k" unfolding q [symmetric] by simp
  finally show ?thesis .
qed

lemma rnd_range_pw:
  assumes "0 \<le> x" "x \<le> pw k" "- 1022 \<le> k" "k \<le> 1023"
  shows "is_finite (rnd x) \<and> 0 \<le> val (rnd x) \<and> val (rnd x) \<le> pw k"
proof -
  have le: "rval x \<le> pw k" using assms(1,2,3) by (rule rval_le_pw)
  have nn: "0 \<le> rval x" using assms(1) by (rule rval_nonneg)
  have "pw k < pw 1024" by (rule pw_strict_mono) (use assms(4) in simp)
  with le nn have "\<bar>rval x\<bar> < pw 1024" by simp
  from rnd_val [OF this] le nn show ?thesis by simp
qed

text \<open>Underflow to zero.\<close>

lemma rnd_underflow:
  assumes "x \<noteq> 0" "\<bar>x\<bar> \<le> pw (- 1075)"
  shows "rnd x = zero_of (x < 0)"
proof -
  have "pw (- 1075) < pw (- 1022)"
    by (rule pw_strict_mono) simp
  with assms(2) have "\<bar>x\<bar> < pw (- 1022)" by simp
  then have e: "expo x = - 1022" by (rule expo_subnormal)
  have u: "ulp x = pw (- 1074)" by (simp add: ulp_def e)
  have h: "pw (- 1075) / pw (- 1074) = 1 / 2"
    by (simp flip: pw_diff)
  have "\<bar>x / ulp x\<bar> = \<bar>x\<bar> / pw (- 1074)" by (simp add: u)
  also have "\<dots> \<le> pw (- 1075) / pw (- 1074)"
    using assms(2) by (intro divide_right_mono) simp_all
  finally have m: "\<bar>x / ulp x\<bar> \<le> 1 / 2" unfolding h .
  from rne_half [OF m] have "rval x = 0" by (simp add: rval_def)
  moreover have "\<not> pw 1024 \<le> 0" by (simp add: not_le)
  ultimately show ?thesis using assms(1) by (simp add: rnd_alt)
qed


lemma rnd_pw:
  assumes "- 1022 \<le> k" "k \<le> 1023"
  shows "rnd (pw k) = Fin (pw k)"
proof -
  have "pw k < pw 1024" by (rule pw_strict_mono) (use assms(2) in simp)
  then show ?thesis using rval_pw [OF assms(1)] by (simp add: rnd_alt)
qed

lemma rnd_1 [simp]: "rnd 1 = Fin 1"
  using rnd_pw [of 0] by simp

text \<open>Close to one is one.\<close>

lemma rnd_near_1:
  assumes "\<bar>y - 1\<bar> \<le> pw (- 54)"
  shows "rnd y = Fin 1"
proof -
  have "pw (- 54) < pw (- 2)" by (rule pw_strict_mono) simp
  moreover have "pw (- 2) = 1 / 4" using pw_half [of "- 1"] by simp
  ultimately have small: "pw (- 54) < 1 / 4" by simp
  have y0: "y \<noteq> 0" using assms small by linarith
  have big: "(1::real) < pw 1024" using pw_strict_mono [of 0 1024] by simp
  show ?thesis
  proof (cases "1 \<le> y")
    case True
    have e: "expo y = 0"
      by (rule expo_eqI) (use True assms small in simp_all)
    have u: "ulp y = pw (- 52)" by (simp add: ulp_def e)
    have m: "y / ulp y = y * pw 52"
      unfolding u using pw_diff [of 0 52] by (simp add: field_simps)
    have "(y - 1) * pw 52 \<le> pw (- 54) * pw 52"
      using assms by (intro mult_right_mono) simp_all
    also have "\<dots> = pw (- 2)" by (simp flip: pw_add)
    also have "\<dots> = 1 / 4" using pw_half [of "- 1"] by simp
    finally have hi: "y * pw 52 \<le> pw 52 + 1 / 4" by (simp add: algebra_simps)
    have lo: "pw 52 \<le> y * pw 52" using True by simp
    have p: "pw 52 = of_int (2 ^ 52)" by (simp add: pw_nat)
    have fl: "\<lfloor>y * pw 52\<rfloor> = 2 ^ 52"
      using lo hi unfolding p by (subst floor_eq_iff) simp
    have "rne (y * pw 52) = 2 ^ 52"
      unfolding rne_def Let_def fl using hi unfolding p by simp
    then have "rval y = of_int (2 ^ 52) * ulp y" by (simp add: rval_def m)
    also have "\<dots> = pw 52 * pw (- 52)" by (simp add: u p)
    also have "\<dots> = 1" by (simp flip: pw_add)
    finally show ?thesis using y0 big by (simp add: rnd_alt)
  next
    case False
    then have lt: "y < 1" by simp
    have ge: "1 / 2 \<le> y" using assms small by linarith
    have e: "expo y = - 1"
      by (rule expo_eqI) (use lt ge in simp_all)
    have u: "ulp y = pw (- 53)" by (simp add: ulp_def e)
    have m: "y / ulp y = y * pw 53"
      unfolding u using pw_diff [of 0 53] by (simp add: field_simps)
    have "(1 - y) * pw 53 \<le> pw (- 54) * pw 53"
      using assms by (intro mult_right_mono) simp_all
    also have "\<dots> = pw (- 1)" by (simp flip: pw_add)
    finally have lo: "pw 53 - 1 / 2 \<le> y * pw 53" by (simp add: algebra_simps)
    have hi: "y * pw 53 < pw 53" using lt by simp
    have p: "pw 53 = of_int (2 ^ 53)" by (simp add: pw_nat)
    have fl: "\<lfloor>y * pw 53\<rfloor> = 2 ^ 53 - 1"
      using lo hi unfolding p by (subst floor_eq_iff) simp
    have od: "odd (2 ^ 53 - 1 :: int)" by simp
    have "rne (y * pw 53) = 2 ^ 53"
      unfolding rne_def Let_def fl using lo hi od unfolding p by auto
    then have "rval y = of_int (2 ^ 53) * ulp y" by (simp add: rval_def m)
    also have "\<dots> = pw 53 * pw (- 53)" by (simp add: u p)
    also have "\<dots> = 1" by (simp flip: pw_add)
    finally show ?thesis using y0 big by (simp add: rnd_alt)
  qed
qed

subsection \<open>Ranges of rounded values\<close>

lemma expo_ge_pw:
  assumes "pw k \<le> \<bar>x\<bar>" "- 1022 \<le> k"
  shows "k \<le> expo x"
proof (rule ccontr)
  assume "\<not> k \<le> expo x"
  then have "expo x + 1 \<le> k" by simp
  then have "pw (expo x + 1) \<le> pw k" by (rule pw_mono)
  moreover have "x \<noteq> 0" using assms(1) pw_pos [of k] by auto
  then have "\<bar>x\<bar> < pw (expo x + 1)" by (rule abs_less_expo)
  ultimately show False using assms(1) by simp
qed

lemma rval_ge_pw:
  assumes "pw k \<le> x" "- 1022 \<le> k"
  shows "pw k \<le> rval x"
proof -
  have "pw k \<le> \<bar>x\<bar>" using assms(1) by simp
  then have ek: "k \<le> expo x" using assms(2) by (rule expo_ge_pw)
  define j where "j = k - (expo x - 52)"
  show ?thesis
  proof (cases "0 \<le> j")
    case True
    have "pw k / ulp x = pw j"
      unfolding ulp_def j_def by (simp flip: pw_diff)
    also have "\<dots> = of_int (2 ^ nat j)" using True by (rule pw_nat)
    finally have q: "pw k / ulp x = of_int (2 ^ nat j)" .
    have "pw k / ulp x \<le> x / ulp x"
      using assms(1) by (intro divide_right_mono) simp_all
    then have "2 ^ nat j \<le> rne (x / ulp x)"
      unfolding q by (rule rne_ge_int)
    then have "(of_int (2 ^ nat j) :: real) \<le> of_int (rne (x / ulp x))"
      by (simp only: of_int_le_iff)
    then have "of_int (2 ^ nat j) * ulp x \<le> rval x"
      unfolding rval_def by (intro mult_right_mono) simp_all
    moreover have "of_int (2 ^ nat j) * ulp x = pw k" unfolding q [symmetric] by simp
    ultimately show ?thesis by simp
  next
    case False
    have "pw (expo x) \<le> \<bar>x\<bar>"
    proof (cases "- 1022 < expo x")
      case True
      moreover have "x \<noteq> 0" using assms(1) pw_pos [of k] by auto
      ultimately show ?thesis by (simp add: expo_le_abs)
    next
      case False
      then have "expo x = k" using ek assms(2) expo_ge [of x] by simp
      then show ?thesis using assms(1) by simp
    qed
    then have x: "pw (expo x) \<le> x" using assms(1) pw_pos [of k] by simp
    have "pw (expo x) / ulp x = pw 52"
      unfolding ulp_def by (simp flip: pw_diff)
    also have "\<dots> = of_int (2 ^ 52)" by (simp add: pw_nat)
    finally have q: "pw (expo x) / ulp x = of_int (2 ^ 52)" .
    have "pw (expo x) / ulp x \<le> x / ulp x"
      using x by (intro divide_right_mono) simp_all
    then have "2 ^ 52 \<le> rne (x / ulp x)"
      unfolding q by (rule rne_ge_int)
    then have "(of_int (2 ^ 52) :: real) \<le> of_int (rne (x / ulp x))"
      by (simp only: of_int_le_iff)
    then have "of_int (2 ^ 52) * ulp x \<le> rval x"
      unfolding rval_def by (intro mult_right_mono) simp_all
    moreover have "of_int (2 ^ 52) * ulp x = pw (expo x)" unfolding q [symmetric] by simp
    moreover have "pw k \<le> pw (expo x)" using ek by (rule pw_mono)
    ultimately show ?thesis by simp
  qed
qed

lemma rnd_nonneg_Fin:
  assumes "0 \<le> x" "\<bar>rval x\<bar> < pw 1024"
  shows "rnd x = Fin (rval x)"
  using assms by (auto simp: rnd_alt zero_of_def)

lemma rnd_unit:
  assumes "0 \<le> x" "x \<le> pw k" "- 1022 \<le> k" "k \<le> 1023"
  shows "\<exists>y. rnd x = Fin y \<and> 0 \<le> y \<and> y \<le> pw k"
proof -
  have le: "rval x \<le> pw k" using assms(1,2,3) by (rule rval_le_pw)
  have nn: "0 \<le> rval x" using assms(1) by (rule rval_nonneg)
  have "pw k < pw 1024" by (rule pw_strict_mono) (use assms(4) in simp)
  with le nn have "\<bar>rval x\<bar> < pw 1024" by simp
  from rnd_nonneg_Fin [OF assms(1) this] le nn show ?thesis by simp
qed

lemma rval_err_unit:
  assumes "\<bar>x\<bar> \<le> pw (k + 1)" "- 1022 \<le> k"
  shows "\<bar>rval x - x\<bar> \<le> pw (k - 52) / 2"
proof (cases "\<bar>x\<bar> = pw (k + 1)")
  case True
  have "rval \<bar>x\<bar> = \<bar>x\<bar>" unfolding True by (rule rval_pw) (use assms(2) in simp)
  then have "rval x = x" by (cases "0 \<le> x") (simp_all add: rval_minus abs_if split: if_splits)
  then show ?thesis by simp
next
  case False
  with assms(1) have "\<bar>x\<bar> < pw (k + 1)" by simp
  then have "expo x \<le> k" using assms(2) by (rule expo_le)
  then have "ulp x \<le> pw (k - 52)" unfolding ulp_def by (intro pw_mono) simp
  with rval_err [of x] show ?thesis by simp
qed

lemma sqrt_pw: "sqrt (pw (2 * k)) = pw k"
proof -
  have "pw (2 * k) = pw k * pw k" by (simp flip: pw_add)
  then show ?thesis by simp
qed

section \<open>The error function\<close>

subsection \<open>The series converges everywhere and has derivative \<open>exp (- x\<^sup>2)\<close>\<close>

lemma gauss_term_odd:
  "gauss_coeff n * x ^ n =
     (if even n then 0
      else (- 1) ^ ((n - 1) div 2) * x ^ (2 * ((n - 1) div 2) + 1)
             / (fact ((n - 1) div 2) * real (2 * ((n - 1) div 2) + 1)))"
proof (cases "even n")
  case True
  then show ?thesis by (simp add: gauss_coeff_def)
next
  case False
  then obtain m where n: "n = 2 * m + 1" by (auto elim: oddE)
  show ?thesis unfolding n by (simp add: gauss_coeff_def)
qed

lemma gauss_half_summable:
  "summable (\<lambda>m. (- 1) ^ m * x ^ (2 * m + 1) / (fact m * real (2 * m + 1)))"
proof (rule summable_comparison_test')
  show "summable (\<lambda>m. \<bar>x\<bar> * (inverse (fact m) * (x\<^sup>2) ^ m))"
    by (rule summable_mult) (rule summable_exp)
next
  fix m :: nat
  have "norm ((- 1) ^ m * x ^ (2 * m + 1) / (fact m * real (2 * m + 1)))
          = \<bar>x\<bar> * (x\<^sup>2) ^ m / (fact m * real (2 * m + 1))"
    by (simp add: abs_mult power_abs power_mult power2_eq_square abs_divide ac_simps
        flip: power_mult_distrib)
  also have "\<dots> \<le> \<bar>x\<bar> * (x\<^sup>2) ^ m / (fact m * 1)"
    by (intro divide_left_mono mult_left_mono) simp_all
  finally show "norm ((- 1) ^ m * x ^ (2 * m + 1) / (fact m * real (2 * m + 1)))
                  \<le> \<bar>x\<bar> * (inverse (fact m) * (x\<^sup>2) ^ m)"
    by (simp add: field_simps)
qed

lemma gauss_summable: "summable (\<lambda>n. gauss_coeff n * x ^ n)"
proof -
  let ?g = "\<lambda>m. (- 1) ^ m * x ^ (2 * m + 1) / (fact m * real (2 * m + 1))"
  have "?g sums suminf ?g" by (rule summable_sums) (rule gauss_half_summable)
  then have "(\<lambda>n. if even n then 0 else ?g ((n - 1) div 2)) sums suminf ?g"
    by (rule sums_if')
  then have "(\<lambda>n. gauss_coeff n * x ^ n) sums suminf ?g"
    by (simp only: gauss_term_odd)
  then show ?thesis by (rule sums_summable)
qed

lemma gauss_diffs:
  "diffs gauss_coeff n * x ^ n =
     (if even n then (- (x\<^sup>2)) ^ (n div 2) /\<^sub>R fact (n div 2) else 0)"
proof (cases "even n")
  case True
  then obtain m where n: "n = 2 * m" by (auto elim: evenE)
  have p: "(- (x\<^sup>2)) ^ m = (- 1) ^ m * x ^ (2 * m)"
    by (simp add: power_mult power_minus [of "x\<^sup>2"])
  have "k * (a / (f * k)) = a / f" if "k \<noteq> 0" for k a f :: real
    using that by simp
  from this [of "real (Suc (2 * m))" "(- 1) ^ m" "fact m"]
  have c: "diffs gauss_coeff (2 * m) = (- 1) ^ m / fact m"
    by (simp add: diffs_def gauss_coeff_def del: of_nat_Suc)
  have "diffs gauss_coeff (2 * m) * x ^ (2 * m) = (- (x\<^sup>2)) ^ m /\<^sub>R fact m"
    unfolding c p by (simp add: divide_inverse)
  then show ?thesis unfolding n by simp
next
  case False
  then show ?thesis by (simp add: diffs_def gauss_coeff_def)
qed

lemma DERIV_gauss_int: "DERIV gauss_int x :> exp (- (x\<^sup>2))"
proof -
  have "(\<lambda>m. (- (x\<^sup>2)) ^ m /\<^sub>R fact m) sums exp (- (x\<^sup>2))"
    by (rule exp_converges)
  moreover have "(\<lambda>m::nat. 0::real) sums 0" by simp
  ultimately have
    "(\<lambda>n. if even n then (- (x\<^sup>2)) ^ (n div 2) /\<^sub>R fact (n div 2) else 0)
       sums (0 + exp (- (x\<^sup>2)))"
    by (rule sums_if [where g = "\<lambda>m. 0" and x = 0, rotated])
  then have "(\<lambda>n. diffs gauss_coeff n * x ^ n) sums exp (- (x\<^sup>2))"
    by (simp only: gauss_diffs add_0)
  then have s: "(\<Sum>n. diffs gauss_coeff n * x ^ n) = exp (- (x\<^sup>2))"
    by (rule sums_unique [symmetric])
  have "DERIV (\<lambda>x. \<Sum>n. gauss_coeff n * x ^ n) x :> (\<Sum>n. diffs gauss_coeff n * x ^ n)"
    by (rule termdiffs_strong_converges_everywhere) (rule gauss_summable)
  then show ?thesis
    unfolding s gauss_int_def [abs_def] .
qed

lemma gauss_int_minus: "gauss_int (- x) = - gauss_int x"
proof -
  have "gauss_coeff n * (- x) ^ n = - (gauss_coeff n * x ^ n)" for n
    by (cases "even n") (simp_all add: gauss_coeff_def)
  then have "gauss_int (- x) = (\<Sum>n. - (gauss_coeff n * x ^ n))"
    by (simp add: gauss_int_def)
  also have "\<dots> = - (\<Sum>n. gauss_coeff n * x ^ n)"
    by (rule suminf_minus) (rule gauss_summable)
  finally show ?thesis by (simp add: gauss_int_def)
qed

lemma gauss_int_0: "gauss_int 0 = 0"
proof -
  have "gauss_coeff n * 0 ^ n = 0" for n
    by (cases n) (simp_all add: gauss_coeff_def)
  then have "(\<lambda>n. gauss_coeff n * 0 ^ n) = (\<lambda>n. 0)" by (rule ext)
  then show ?thesis unfolding gauss_int_def by simp
qed

subsection \<open>The Gaussian integral is at most \<open>\<surd>\<pi> / 2\<close>\<close>

text \<open>
  On a step \<open>[a, b]\<close> of the positive axis the integrand is at most \<open>exp (- a\<^sup>2)\<close>, so
  \<open>gauss_int x\<close> lies below the left Riemann sums of \<open>t \<mapsto> x \<cdot> exp (- (x t)\<^sup>2)\<close> over
  \<open>[0, 1]\<close>.
\<close>

lemma gauss_int_step_upper:
  assumes "0 \<le> a" "a \<le> b"
  shows "gauss_int b - gauss_int a \<le> (b - a) * exp (- (a\<^sup>2))"
proof -
  let ?f = "\<lambda>t. t * exp (- (a\<^sup>2)) - gauss_int t"
  have "?f a \<le> ?f b"
  proof (rule DERIV_nonneg_imp_nondecreasing [OF assms(2)])
    fix t assume t: "a \<le> t" "t \<le> b"
    have d: "DERIV ?f t :> exp (- (a\<^sup>2)) - exp (- (t\<^sup>2))"
      by (auto intro!: derivative_eq_intros DERIV_gauss_int)
    have "a\<^sup>2 \<le> t\<^sup>2" using \<open>0 \<le> a\<close> t(1) by (simp add: power_mono)
    then have "0 \<le> exp (- (a\<^sup>2)) - exp (- (t\<^sup>2))" by simp
    with d show "\<exists>y. DERIV ?f t :> y \<and> 0 \<le> y" by blast
  qed
  then show ?thesis by (simp add: algebra_simps)
qed

lemma gauss_int_nonneg:
  assumes "0 \<le> x"
  shows "0 \<le> gauss_int x"
proof -
  have "gauss_int 0 \<le> gauss_int x"
  proof (rule DERIV_nonneg_imp_nondecreasing [OF assms])
    fix t :: real
    have "DERIV gauss_int t :> exp (- (t\<^sup>2))" by (rule DERIV_gauss_int)
    moreover have "0 \<le> exp (- (t\<^sup>2))" by simp
    ultimately show "\<exists>y. DERIV gauss_int t :> y \<and> 0 \<le> y" by blast
  qed
  then show ?thesis by (simp add: gauss_int_0)
qed

lemma gauss_int_riemann:
  assumes "0 \<le> x"
  shows "gauss_int x \<le> (\<Sum>k<Suc n. x / real (Suc n) * exp (- ((x * real k / real (Suc n))\<^sup>2)))"
proof -
  let ?t = "\<lambda>k. x * real k / real (Suc n)"
  have step: "gauss_int (?t (Suc k)) - gauss_int (?t k) \<le> x / real (Suc n) * exp (- ((?t k)\<^sup>2))"
    for k
  proof -
    have a: "0 \<le> ?t k" using assms by simp
    have b: "?t k \<le> ?t (Suc k)"
      using assms by (intro divide_right_mono mult_left_mono) simp_all
    have "?t (Suc k) - ?t k = x / real (Suc n)"
      by (simp add: diff_divide_distrib [symmetric] distrib_left)
    with gauss_int_step_upper [OF a b] show ?thesis by simp
  qed
  have "(\<Sum>k<Suc n. gauss_int (?t (Suc k)) - gauss_int (?t k))
          \<le> (\<Sum>k<Suc n. x / real (Suc n) * exp (- ((?t k)\<^sup>2)))"
    by (rule sum_mono) (rule step)
  moreover have "(\<Sum>k<Suc n. gauss_int (?t (Suc k)) - gauss_int (?t k))
                   = gauss_int (?t (Suc n)) - gauss_int (?t 0)"
    by (rule sum_lessThan_telescope [of "\<lambda>k. gauss_int (?t k)"])
  moreover have "?t (Suc n) = x" by simp
  moreover have "?t 0 = 0" by simp
  ultimately show ?thesis by (simp add: gauss_int_0)
qed

text \<open>The left Riemann sums of \<open>1 / (1 + t\<^sup>2)\<close> over \<open>[0, 1]\<close> approach \<open>arctan 1 = \<pi> / 4\<close>.\<close>

lemma arctan_step:
  assumes "0 \<le> a" "a \<le> b"
  shows "(b - a) / (1 + b\<^sup>2) \<le> arctan b - arctan a"
proof -
  let ?f = "\<lambda>t. arctan t - t / (1 + b\<^sup>2)"
  have "?f a \<le> ?f b"
  proof (rule DERIV_nonneg_imp_nondecreasing [OF assms(2)])
    fix t assume t: "a \<le> t" "t \<le> b"
    have nz: "1 + b\<^sup>2 \<noteq> 0" by (simp add: add_nonneg_eq_0_iff)
    have d: "DERIV ?f t :> inverse (1 + t\<^sup>2) - 1 / (1 + b\<^sup>2)"
      using nz by (auto intro!: derivative_eq_intros)
    have "0 \<le> t" using assms(1) t(1) by simp
    then have "t\<^sup>2 \<le> b\<^sup>2" using t(2) by (simp add: power_mono)
    moreover have "0 < 1 + t\<^sup>2" by (simp add: add_pos_nonneg)
    ultimately have "0 \<le> inverse (1 + t\<^sup>2) - 1 / (1 + b\<^sup>2)"
      by (simp add: inverse_eq_divide frac_le)
    with d show "\<exists>y. DERIV ?f t :> y \<and> 0 \<le> y" by blast
  qed
  then show ?thesis by (simp add: algebra_simps diff_divide_distrib)
qed

lemma arctan_riemann:
  "(\<Sum>k<Suc n. 1 / real (Suc n) / (1 + (real (Suc k) / real (Suc n))\<^sup>2)) \<le> pi / 4"
proof -
  let ?t = "\<lambda>k. real k / real (Suc n)"
  have step: "1 / real (Suc n) / (1 + (?t (Suc k))\<^sup>2) \<le> arctan (?t (Suc k)) - arctan (?t k)" for k
  proof -
    have a: "0 \<le> ?t k" by simp
    have b: "?t k \<le> ?t (Suc k)" by (intro divide_right_mono) simp_all
    have "?t (Suc k) - ?t k = 1 / real (Suc n)"
      by (simp add: diff_divide_distrib [symmetric])
    with arctan_step [OF a b] show ?thesis by simp
  qed
  have "(\<Sum>k<Suc n. 1 / real (Suc n) / (1 + (?t (Suc k))\<^sup>2))
          \<le> (\<Sum>k<Suc n. arctan (?t (Suc k)) - arctan (?t k))"
    by (rule sum_mono) (rule step)
  also have "\<dots> = arctan (?t (Suc n)) - arctan (?t 0)"
    by (rule sum_lessThan_telescope [of "\<lambda>k. arctan (?t k)"])
  also have "\<dots> = pi / 4" by (simp add: arctan_one)
  finally show ?thesis .
qed

lemma arctan_left_sum:
  "(\<Sum>k<Suc n. 1 / real (Suc n) / (1 + (real k / real (Suc n))\<^sup>2))
     \<le> pi / 4 + 1 / (2 * real (Suc n))"
proof -
  let ?f = "\<lambda>k. 1 / real (Suc n) / (1 + (real k / real (Suc n))\<^sup>2)"
  define h where "h = 1 / (2 * real (Suc n))"
  have "(\<Sum>k<Suc n. ?f (Suc k) - ?f k) = ?f (Suc n) - ?f 0"
    by (rule sum_lessThan_telescope)
  then have "(\<Sum>k<Suc n. ?f (Suc k)) - (\<Sum>k<Suc n. ?f k) = ?f (Suc n) - ?f 0"
    by (simp only: sum_subtractf)
  moreover have "?f (Suc n) = h" by (simp add: h_def)
  moreover have "?f 0 = 2 * h" by (simp add: h_def field_simps)
  ultimately have "(\<Sum>k<Suc n. ?f k) = (\<Sum>k<Suc n. ?f (Suc k)) + h"
    by linarith
  with arctan_riemann [of n] show ?thesis unfolding h_def by linarith
qed

text \<open>
  For each \<open>n\<close> the function \<open>G y = (gauss_int y)\<^sup>2 + H y\<close>, with \<open>H\<close> the left Riemann sum of
  \<open>t \<mapsto> exp (- y\<^sup>2 (1 + t\<^sup>2)) / (1 + t\<^sup>2)\<close>, does not increase on the positive axis; its value
  at \<open>0\<close> is the Riemann sum of the arc tangent.
\<close>

lemma DERIV_gauss_weight:
  fixes c y :: real
  assumes "0 < c"
  shows "DERIV (\<lambda>y. exp (- (y\<^sup>2 * c)) / c) y :> - (2 * y) * exp (- (y\<^sup>2 * c))"
proof -
  have "c \<noteq> 0" using assms by simp
  then show ?thesis
    by (auto intro!: derivative_eq_intros simp: field_simps)
qed

lemma gauss_int_sq_le_approx:
  assumes "0 \<le> x"
  shows "(gauss_int x)\<^sup>2 \<le> pi / 4 + 1 / (2 * real (Suc n))"
proof -
  define N where "N = real (Suc n)"
  define c where "c = (\<lambda>k. 1 + (real k / N)\<^sup>2)"
  define H where "H = (\<lambda>y. \<Sum>k<Suc n. 1 / N * (exp (- (y\<^sup>2 * c k)) / c k))"
  define H' where "H' = (\<lambda>y. \<Sum>k<Suc n. 1 / N * (- (2 * y) * exp (- (y\<^sup>2 * c k))))"
  define G where "G = (\<lambda>y. (gauss_int y)\<^sup>2 + H y)"
  have Npos: "0 < N" by (simp add: N_def)
  have cpos: "0 < c k" for k by (simp add: c_def add_pos_nonneg)
  have dH: "DERIV H y :> H' y" for y
    unfolding H_def H'_def
    by (intro DERIV_sum DERIV_cmult DERIV_gauss_weight cpos)
  have dG: "DERIV G y :> 2 * gauss_int y * exp (- (y\<^sup>2)) + H' y" for y
    unfolding G_def
    by (auto intro!: derivative_eq_intros DERIV_gauss_int dH)
  have neg: "2 * gauss_int y * exp (- (y\<^sup>2)) + H' y \<le> 0" if "0 \<le> y" for y
  proof -
    have split: "exp (- (y\<^sup>2 * c k)) = exp (- (y\<^sup>2)) * exp (- ((y * real k / N)\<^sup>2))" for k
      by (simp add: c_def exp_add [symmetric] algebra_simps power_mult_distrib power_divide)
    have "H' y = (\<Sum>k<Suc n. - (2 * exp (- (y\<^sup>2))) * (y / N * exp (- ((y * real k / N)\<^sup>2))))"
      unfolding H'_def split by (intro sum.cong refl) simp
    also have "\<dots> = - (2 * exp (- (y\<^sup>2))) * (\<Sum>k<Suc n. y / N * exp (- ((y * real k / N)\<^sup>2)))"
      by (simp only: sum_distrib_left)
    finally have h: "H' y = - (2 * exp (- (y\<^sup>2))) * (\<Sum>k<Suc n. y / N * exp (- ((y * real k / N)\<^sup>2)))" .
    have "gauss_int y \<le> (\<Sum>k<Suc n. y / N * exp (- ((y * real k / N)\<^sup>2)))"
      unfolding N_def using that by (rule gauss_int_riemann)
    then have "2 * exp (- (y\<^sup>2)) * gauss_int y
                 \<le> 2 * exp (- (y\<^sup>2)) * (\<Sum>k<Suc n. y / N * exp (- ((y * real k / N)\<^sup>2)))"
      by (intro mult_left_mono) simp_all
    with h show ?thesis by (simp add: algebra_simps)
  qed
  have "G x \<le> G 0"
  proof (rule DERIV_nonpos_imp_nonincreasing [OF assms])
    fix y :: real assume "0 \<le> y"
    with dG [of y] neg [of y]
    show "\<exists>d. DERIV G y :> d \<and> d \<le> 0" by blast
  qed
  moreover have "0 \<le> H x"
    unfolding H_def using Npos cpos by (intro sum_nonneg mult_nonneg_nonneg divide_nonneg_pos) (simp_all add: less_imp_le)
  moreover have "G 0 = (\<Sum>k<Suc n. 1 / N / c k)"
    by (simp add: G_def H_def gauss_int_0)
  moreover have "(\<Sum>k<Suc n. 1 / N / c k) \<le> pi / 4 + 1 / (2 * real (Suc n))"
    unfolding N_def c_def by (rule arctan_left_sum)
  ultimately show ?thesis by (simp add: G_def)
qed

lemma gauss_int_sq_le:
  assumes "0 \<le> x"
  shows "(gauss_int x)\<^sup>2 \<le> pi / 4"
proof (rule field_le_epsilon)
  fix e :: real
  assume "0 < e"
  then obtain n where n: "inverse (real (Suc n)) < e"
    using reals_Archimedean by blast
  have "1 / (2 * real (Suc n)) \<le> inverse (real (Suc n))"
    by (simp add: field_simps)
  with n gauss_int_sq_le_approx [OF assms, of n]
  show "(gauss_int x)\<^sup>2 \<le> pi / 4 + e" by linarith
qed

lemma gauss_int_le:
  assumes "0 \<le> x"
  shows "gauss_int x \<le> sqrt pi / 2"
proof -
  have "0 \<le> gauss_int x" using assms by (rule gauss_int_nonneg)
  then have "gauss_int x = sqrt ((gauss_int x)\<^sup>2)" by simp
  also have "\<dots> \<le> sqrt (pi / 4)"
    using gauss_int_sq_le [OF assms] by (simp only: real_sqrt_le_iff)
  also have "\<dots> = sqrt pi / 2" by (simp add: real_sqrt_divide)
  finally show ?thesis .
qed

subsection \<open>Symmetry and range of \<open>erf\<close> and \<open>erfc\<close>\<close>

lemma erf_minus: "erf (- x) = - erf x"
  by (simp add: erf_def gauss_int_minus)

lemma erf_nonneg_bounds:
  assumes "0 \<le> x"
  shows "0 \<le> erf x" "erf x \<le> 1"
proof -
  have p: "0 < sqrt pi" by simp
  show "0 \<le> erf x"
    unfolding erf_def using gauss_int_nonneg [OF assms] p by simp
  have "2 / sqrt pi * gauss_int x \<le> 2 / sqrt pi * (sqrt pi / 2)"
    using gauss_int_le [OF assms] p by (intro mult_left_mono) simp_all
  also have "\<dots> = 1" using p by simp
  finally show "erf x \<le> 1" by (simp add: erf_def)
qed

lemma erf_bounds: "- 1 \<le> erf x \<and> erf x \<le> 1"
proof (cases "0 \<le> x")
  case True
  with erf_nonneg_bounds [of x] show ?thesis by simp
next
  case False
  then have "0 \<le> - x" by simp
  from erf_nonneg_bounds [OF this] show ?thesis by (simp add: erf_minus)
qed

lemma erfc_bounds: "0 \<le> erfc x \<and> erfc x \<le> 2"
  using erf_bounds [of x] by (simp add: erfc_def)



section \<open>The kernel on degenerate inputs\<close>

lemma ddiv_by_zero: "is_zero z \<Longrightarrow> \<not> is_finite (ddiv a z)"
  by (cases a) (auto simp: ddiv_def is_zero_def is_inf_def inf_of_def zero_of_def)

lemma dsqrt_finite:
  assumes "0 \<le> T" "T < pw 1024"
  shows "is_finite (dsqrt (Fin T))"
proof -
  have "sqrt T \<le> pw 512"
  proof (rule real_le_lsqrt)
    show "0 \<le> pw 512" by simp
    have "(pw 512)\<^sup>2 = pw 1024" by (simp add: power2_eq_square flip: pw_add)
    then show "T \<le> (pw 512)\<^sup>2" using assms(2) by simp
  qed
  moreover have "pw 512 \<le> pw 1023" by (rule pw_mono) simp
  moreover have "0 \<le> sqrt T" using assms(1) by simp
  ultimately have "\<bar>sqrt T\<bar> \<le> pw 1023" by simp
  from rnd_finite(1) [OF this] show ?thesis using assms(1) by simp
qed

lemma dmul_zero_left: "is_finite b \<Longrightarrow> is_zero (dmul (Fin 0) b)"
  by (cases b) (auto simp: dmul_def is_zero_def is_inf_def zero_of_def)

lemma dmul_zero_right: "is_finite a \<Longrightarrow> is_zero (dmul a (Fin 0))"
  by (cases a) (auto simp: dmul_def is_zero_def is_inf_def zero_of_def)

lemma d1_divisor_zero:
  assumes "0 \<le> T" "T < pw 1024" "T = 0 \<or> sigma = 0"
  shows "is_zero (dmul (Fin sigma) (dsqrt (Fin T)))"
proof (cases "T = 0")
  case True
  then show ?thesis using dmul_zero_right [of "Fin sigma"] by simp
next
  case False
  with assms(3) have s: "sigma = 0" by simp
  show ?thesis unfolding s using assms(1,2) by (intro dmul_zero_left dsqrt_finite)
qed

lemma norm_cdf_NaN: "norm_cdf NaN = NaN"
  by (simp add: norm_cdf_def ddiv_def)

lemma norm_pdf_NaN: "norm_pdf NaN = NaN"
  by (simp add: norm_pdf_def dmul_def)

lemma dmul_NaN: "dmul a NaN = NaN" "dmul NaN b = NaN"
  by (simp_all add: dmul_def)

lemma ddiv_NaN: "ddiv NaN b = NaN" "ddiv a NaN = NaN"
  by (simp_all add: ddiv_def)

lemma dsub_NaN: "dsub NaN b = NaN" "dsub a NaN = NaN"
  by (cases a; simp add: dsub_def)+

lemma dadd_NaN_right: "dadd a NaN = NaN"
  by (cases a) simp_all

lemma ddiv_zero_zero: "is_zero a \<Longrightarrow> is_zero b \<Longrightarrow> ddiv a b = NaN"
  by (auto simp: ddiv_def is_zero_def)

lemma ddiv_same: "0 < S \<Longrightarrow> ddiv (Fin S) (Fin S) = Fin 1"
  by (simp add: ddiv_def is_zero_def is_inf_def)

text \<open>Anything times zero is a zero or NaN, and so is its sum with zero.\<close>

lemma dmul_by_zero: "dmul a (Fin 0) = NaN \<or> is_zero (dmul a (Fin 0))"
  by (cases a) (auto simp: dmul_def is_zero_def is_inf_def zero_of_def)

lemma dadd_zero_zero: "is_zero y \<Longrightarrow> is_zero (dadd (Fin 0) y)"
  by (auto simp: is_zero_def)

lemma d1_expiry_atm:
  assumes "0 < S" "0 < sigma"
  shows "d1 (Fin S) (Fin S) (Fin r) (Fin sigma) (Fin 0) = NaN"
proof -
  let ?a = "dadd (Fin r) (dmul (dmul (Fin (1/2)) (Fin sigma)) (Fin sigma))"
  have q: "ddiv (Fin S) (Fin S) = Fin 1" using assms(1) by (rule ddiv_same)
  have l: "dlog (Fin 1) = Fin 0" by simp
  have den: "is_zero (dmul (Fin sigma) (dsqrt (Fin 0)))"
    using dmul_zero_right [of "Fin sigma"] by simp
  from dmul_by_zero [of ?a] show ?thesis
  proof
    assume "dmul ?a (Fin 0) = NaN"
    then show ?thesis unfolding d1_def q l by (simp add: ddiv_NaN)
  next
    assume "is_zero (dmul ?a (Fin 0))"
    then have "is_zero (dadd (Fin 0) (dmul ?a (Fin 0)))" by (rule dadd_zero_zero)
    from ddiv_zero_zero [OF this den] show ?thesis unfolding d1_def q l .
  qed
qed

lemma price_option_NaN:
  assumes "d1 S K r sigma T = NaN"
  shows "price_option S K r sigma T otype = NaN"
  by (simp add: price_option_def Let_def assms d2_def dsub_NaN norm_cdf_NaN dmul_NaN)

lemma compute_greeks_NaN:
  assumes "d1 S K r sigma T = NaN"
  shows "compute_greeks S K r sigma T otype =
           \<lparr>delta = NaN, gamma = NaN, vega = NaN, theta = NaN\<rparr>"
  by (simp add: compute_greeks_def Let_def assms d2_def dsub_NaN norm_cdf_NaN norm_pdf_NaN
      dmul_NaN ddiv_NaN dadd_NaN_right)

subsection \<open>Underflow on a valid input\<close>

text \<open>
  \<open>S = K = 100\<close>, \<open>r = 0\<close>, \<open>\<sigma> = 2\<^sup>-\<^sup>6\<^sup>0\<^sup>0\<close> and \<open>T = 2\<^sup>-\<^sup>1\<^sup>0\<^sup>0\<^sup>0\<close> are positive \<open>double\<close>s. The
  products \<open>0.5\<cdot>\<sigma>\<cdot>\<sigma> = 2\<^sup>-\<^sup>1\<^sup>2\<^sup>0\<^sup>1\<close> and \<open>\<sigma>\<cdot>\<surd>T = 2\<^sup>-\<^sup>1\<^sup>1\<^sup>0\<^sup>0\<close> lie below half the least positive
  \<open>double\<close> \<open>2\<^sup>-\<^sup>1\<^sup>0\<^sup>7\<^sup>4\<close> and round to zero, so \<open>d1\<close> is \<open>0/0\<close>.
\<close>

lemma d1_underflow:
  "d1 (Fin 100) (Fin 100) (Fin 0) (Fin (pw (- 600))) (Fin (pw (- 1000))) = NaN"
proof -
  have q: "ddiv (Fin 100) (Fin 100) = Fin 1" by (rule ddiv_same) simp
  have l: "dlog (Fin 1) = Fin 0" by simp
  have h: "dmul (Fin (1/2)) (Fin (pw (- 600))) = Fin (pw (- 601))"
  proof -
    have "1 / 2 * pw (- 600) = pw (- 601)" using pw_half [of "- 600"] by simp
    moreover have "rnd (pw (- 601)) = Fin (pw (- 601))" by (rule rnd_pw) simp_all
    ultimately show ?thesis by (simp add: dmul_def is_inf_def is_zero_def)
  qed
  have under: "rnd (pw j) = Fin 0" if "j \<le> - 1075" for j
  proof -
    have "pw j \<le> pw (- 1075)" using that by (rule pw_mono)
    then have "rnd (pw j) = zero_of (pw j < 0)" by (intro rnd_underflow) simp_all
    then show ?thesis by (simp add: zero_of_def not_less)
  qed
  have v: "dmul (Fin (pw (- 601))) (Fin (pw (- 600))) = Fin 0"
  proof -
    have "pw (- 601) * pw (- 600) = pw (- 1201)" by (simp flip: pw_add)
    then show ?thesis using under [of "- 1201"] by (simp add: dmul_def is_inf_def is_zero_def)
  qed
  have s: "dsqrt (Fin (pw (- 1000))) = Fin (pw (- 500))"
  proof -
    have "sqrt (pw (- 1000)) = pw (- 500)" using sqrt_pw [of "- 500"] by simp
    moreover have "rnd (pw (- 500)) = Fin (pw (- 500))" by (rule rnd_pw) simp_all
    ultimately show ?thesis by (simp add: not_less)
  qed
  have den: "dmul (Fin (pw (- 600))) (Fin (pw (- 500))) = Fin 0"
  proof -
    have "pw (- 600) * pw (- 500) = pw (- 1100)" by (simp flip: pw_add)
    then show ?thesis using under [of "- 1100"] by (simp add: dmul_def is_inf_def is_zero_def)
  qed
  have z: "dmul (Fin 0) (Fin (pw (- 1000))) = Fin 0"
    by (simp add: dmul_def is_inf_def is_zero_def zero_of_def)
  show ?thesis
    unfolding d1_def q l h v s den by (simp add: z ddiv_def is_zero_def)
qed

subsection \<open>A sample input without rounding\<close>

lemma pw_small: "pw (- 2) = 1 / 4" "pw (- 3) = 1 / 8" "pw (- 5) = 1 / 32"
proof -
  show a: "pw (- 2) = 1 / 4" using pw_half [of "- 1"] by simp
  show b: "pw (- 3) = 1 / 8" using pw_half [of "- 2"] a by simp
  have "pw (- 4) = 1 / 16" using pw_half [of "- 3"] b by simp
  then show "pw (- 5) = 1 / 32" using pw_half [of "- 4"] by simp
qed

lemma rnd_small:
  "rnd (1 / 2) = Fin (1 / 2)" "rnd (1 / 4) = Fin (1 / 4)" "rnd (1 / 8) = Fin (1 / 8)"
  "rnd (1 / 32) = Fin (1 / 32)"
  using rnd_pw [of "- 1"] rnd_pw [of "- 2"] rnd_pw [of "- 3"] rnd_pw [of "- 5"]
  by (simp_all add: pw_small)

lemma d1_sample: "d1 (Fin 100) (Fin 100) (Fin 0) (Fin (1/2)) (Fin (1/4)) = Fin (1/8)"
proof -
  have q: "ddiv (Fin 100) (Fin 100) = Fin 1" by (rule ddiv_same) simp
  have l: "dlog (Fin 1) = Fin 0" by simp
  have h: "dmul (Fin (1/2)) (Fin (1/2)) = Fin (1/4)"
    by (simp add: dmul_def is_inf_def is_zero_def rnd_small)
  have v: "dmul (Fin (1/4)) (Fin (1/2)) = Fin (1/8)"
    by (simp add: dmul_def is_inf_def is_zero_def rnd_small)
  have a: "dadd (Fin 0) (Fin (1/8)) = Fin (1/8)"
    by (simp add: rnd_small)
  have m: "dmul (Fin (1/8)) (Fin (1/4)) = Fin (1/32)"
    by (simp add: dmul_def is_inf_def is_zero_def rnd_small)
  have n: "dadd (Fin 0) (Fin (1/32)) = Fin (1/32)"
    by (simp add: rnd_small)
  have s: "dsqrt (Fin (1/4)) = Fin (1/2)"
  proof -
    have "sqrt (1/4) = (1/2::real)"
      by (rule real_sqrt_unique) (simp_all add: power2_eq_square)
    then show ?thesis by (simp only: dsqrt.simps rnd_small) simp
  qed
  have e: "ddiv (Fin (1/32)) (Fin (1/4)) = Fin (1/8)"
    by (simp add: ddiv_def is_inf_def is_zero_def rnd_small)
  show ?thesis
    unfolding d1_def q l h v a m n s e ..
qed


section \<open>The range of \<open>norm_cdf\<close>\<close>

lemma dsqrt_2: "\<exists>c. dsqrt (Fin 2) = Fin c \<and> 1 \<le> c \<and> c \<le> 2"
proof -
  have lo: "1 \<le> sqrt 2" by simp
  have hi: "sqrt 2 \<le> 2" by (rule real_le_lsqrt) simp_all
  have "\<exists>y. rnd (sqrt 2) = Fin y \<and> 0 \<le> y \<and> y \<le> pw 1"
    by (rule rnd_unit) (use hi in simp_all)
  then obtain y where y: "rnd (sqrt 2) = Fin y" "y \<le> 2" by auto
  have "pw 0 \<le> rval (sqrt 2)" by (rule rval_ge_pw) (use lo in simp_all)
  moreover have "y = rval (sqrt 2)"
    using y(1) by (auto simp: rnd_alt zero_of_def inf_of_def split: if_splits)
  ultimately show ?thesis using y by simp
qed

lemma ddiv_pos_not_NaN:
  assumes "x \<noteq> NaN" "0 < c"
  shows "ddiv x (Fin c) \<noteq> NaN"
  using assms by (cases x) (auto simp: ddiv_def is_inf_def is_zero_def inf_of_def zero_of_def)

lemma dneg_not_NaN: "x \<noteq> NaN \<Longrightarrow> dneg x \<noteq> NaN"
  by (cases x) auto

lemma derfc_range:
  assumes "y \<noteq> NaN"
  shows "\<exists>e. derfc y = Fin e \<and> 0 \<le> e \<and> e \<le> 2"
proof (cases y)
  case (Fin v)
  have "\<exists>e. rnd (erfc v) = Fin e \<and> 0 \<le> e \<and> e \<le> pw 1"
    by (rule rnd_unit) (use erfc_bounds [of v] in simp_all)
  then show ?thesis using Fin by simp
qed (use assms in simp_all)

lemma half_range:
  assumes "0 \<le> e" "e \<le> 2"
  shows "\<exists>n. ddiv (Fin e) (Fin 2) = Fin n \<and> 0 \<le> n \<and> n \<le> 1"
proof (cases "e = 0")
  case True
  then show ?thesis by (simp add: ddiv_def is_inf_def is_zero_def zero_of_def)
next
  case False
  have "\<exists>n. rnd (e / 2) = Fin n \<and> 0 \<le> n \<and> n \<le> pw 0"
    by (rule rnd_unit) (use assms in simp_all)
  then show ?thesis using False by (simp add: ddiv_def is_inf_def is_zero_def)
qed

lemma norm_cdf_range:
  assumes "x \<noteq> NaN"
  shows "\<exists>n. norm_cdf x = Fin n \<and> 0 \<le> n \<and> n \<le> 1"
proof -
  obtain c where c: "dsqrt (Fin 2) = Fin c" "1 \<le> c" using dsqrt_2 by auto
  have "ddiv (dneg x) (Fin c) \<noteq> NaN"
    by (rule ddiv_pos_not_NaN) (use assms c(2) in \<open>simp_all add: dneg_not_NaN\<close>)
  from derfc_range [OF this] obtain e
    where e: "derfc (ddiv (dneg x) (Fin c)) = Fin e" "0 \<le> e" "e \<le> 2" by auto
  from half_range [OF e(2,3)] show ?thesis
    unfolding norm_cdf_def c(1) e(1) .
qed

lemma norm_cdf_NaN_iff: "norm_cdf x = NaN \<longleftrightarrow> x = NaN"
proof (cases "x = NaN")
  case True
  then show ?thesis by (simp add: norm_cdf_NaN)
next
  case False
  from norm_cdf_range [OF this] False show ?thesis by auto
qed

text \<open>Subtracting one and getting it back.\<close>

lemma sub_one:
  assumes "0 \<le> n" "n \<le> 1"
  shows "dle (Fin (- 1)) (dsub (Fin n) (Fin 1))"
    and "dle (dsub (Fin n) (Fin 1)) (Fin 0)"
    and "dsub (Fin n) (dsub (Fin n) (Fin 1)) = Fin 1"
proof -
  define x where "x = n - 1"
  have p: "dsub (Fin n) (Fin 1) = rnd x" by (simp add: dsub_def x_def)
  have x: "x \<le> 0" "- 1 \<le> x" using assms by (simp_all add: x_def)
  have ax: "\<bar>x\<bar> \<le> pw (- 1 + 1)" using x by simp
  have err: "\<bar>rval x - x\<bar> \<le> pw (- 54)"
    using rval_err_unit [OF ax] pw_half [of "- 53"] by simp
  have neg: "rval x \<le> 0" using x(1) by (rule rval_nonpos)
  have "rval (- x) \<le> pw 0" by (rule rval_le_pw) (use x in simp_all)
  then have ge: "- 1 \<le> rval x" by (simp add: rval_minus)
  have big: "(1::real) < pw 1024" using pw_strict_mono [of 0 1024] by simp
  have fin: "\<bar>rval x\<bar> < pw 1024" using neg ge big by simp
  have cases: "rnd x = Fin (rval x) \<and> rval x \<noteq> 0 \<or> is_zero (rnd x) \<and> rval x = 0"
    using fin by (auto simp: rnd_alt zero_of_def is_zero_def)
  show "dle (Fin (- 1)) (dsub (Fin n) (Fin 1))"
    unfolding p using cases ge by (auto simp: is_zero_def)
  show "dle (dsub (Fin n) (Fin 1)) (Fin 0)"
    unfolding p using cases neg by (auto simp: is_zero_def)
  have near: "\<bar>n - rval x - 1\<bar> \<le> pw (- 54)"
    using err by (simp add: x_def abs_minus_commute)
  show "dsub (Fin n) (dsub (Fin n) (Fin 1)) = Fin 1"
  proof (cases "x = 0")
    case True
    then have "n = 1" by (simp add: x_def)
    with True show ?thesis unfolding p by (simp add: dsub_def)
  next
    case False
    from cases show ?thesis
    proof
      assume a: "rnd x = Fin (rval x) \<and> rval x \<noteq> 0"
      then have "dsub (Fin n) (rnd x) = rnd (n - rval x)" by (simp add: dsub_def)
      also have "\<dots> = Fin 1" using near by (rule rnd_near_1)
      finally show ?thesis unfolding p .
    next
      assume a: "is_zero (rnd x) \<and> rval x = 0"
      then have n1: "\<bar>n - 1\<bar> \<le> pw (- 54)" using near by simp
      have "x < 0" using False x(1) by simp
      then have "signbit (rnd x)" by (simp add: rnd_signbit)
      with a have "rnd x = NZero" by (auto simp: is_zero_def)
      then have "dsub (Fin n) (rnd x) = rnd n" by (simp add: dsub_def)
      also have "\<dots> = Fin 1" using n1 by (rule rnd_near_1)
      finally show ?thesis unfolding p .
    qed
  qed
qed

section \<open>Signs\<close>

lemma nsb_rnd: "0 \<le> x \<Longrightarrow> \<not> signbit (rnd x)"
  by (simp add: rnd_signbit)

lemma nsb_val: "\<not> signbit a \<Longrightarrow> 0 \<le> val a"
  by (cases a) simp_all

lemma nsb_dmul:
  assumes "\<not> signbit a" "\<not> signbit b"
  shows "\<not> signbit (dmul a b)"
proof -
  have "0 \<le> val a * val b" using assms by (intro mult_nonneg_nonneg nsb_val)
  then have "\<not> signbit (rnd (val a * val b))" by (rule nsb_rnd)
  then show ?thesis using assms by (simp add: dmul_def inf_of_def zero_of_def)
qed

lemma nsb_ddiv:
  assumes "\<not> signbit a" "\<not> signbit b"
  shows "\<not> signbit (ddiv a b)"
proof -
  have "0 \<le> val a / val b" using assms by (intro divide_nonneg_nonneg nsb_val)
  then have "\<not> signbit (rnd (val a / val b))" by (rule nsb_rnd)
  then show ?thesis using assms by (simp add: ddiv_def inf_of_def zero_of_def)
qed

lemma nsb_dexp: "\<not> signbit (dexp a)"
  by (cases a) (simp_all add: nsb_rnd)

lemma nsb_dsqrt: "\<not> signbit (dsqrt (Fin T))"
  by (simp add: nsb_rnd)

lemma nsb_norm_pdf: "\<not> signbit (norm_pdf x)"
  unfolding norm_pdf_def INV_SQRT_2PI_def
  by (intro nsb_dmul nsb_dexp nsb_rnd) simp

lemma nsb_dle: "\<not> signbit g \<Longrightarrow> g = NaN \<or> dle (Fin 0) g"
  by (cases g) simp_all

section \<open>The fields of the Greeks\<close>

lemma delta_CALL: "delta (compute_greeks S K r sigma T CALL) = norm_cdf (d1 S K r sigma T)"
  by (simp add: compute_greeks_def Let_def)

lemma delta_PUT:
  "delta (compute_greeks S K r sigma T PUT) = dsub (norm_cdf (d1 S K r sigma T)) (Fin 1)"
  by (simp add: compute_greeks_def Let_def)

lemma gamma_any:
  "gamma (compute_greeks S K r sigma T otype) =
     ddiv (norm_pdf (d1 S K r sigma T)) (dmul (dmul S sigma) (dsqrt T))"
  by (simp add: compute_greeks_def Let_def)

lemma vega_any:
  "vega (compute_greeks S K r sigma T otype) =
     ddiv (dmul (dmul S (norm_pdf (d1 S K r sigma T))) (dsqrt T)) (Fin 100)"
  by (simp add: compute_greeks_def Let_def)

section \<open>The error of one operation\<close>


lemma dneg_finite [simp]: "is_finite (dneg a) = is_finite a"
  by (cases a) simp_all

lemma val_dneg [simp]: "val (dneg a) = - val a"
  by (cases a) simp_all






section \<open>\<open>norm_cdf\<close> at \<open>x\<close> and at \<open>-x\<close>\<close>







section \<open>Put-call parity up to rounding\<close>






section \<open>The discounted strike\<close>




section \<open>The sample input, continued\<close>




section \<open>Representable numbers\<close>

text \<open>
  A real \<open>x\<close> is a \<open>double\<close> when \<open>rnd x = Fin x\<close>. Rounding is idempotent, and halving a
  number commutes with rounding unless the half is subnormal.
\<close>

lemma rval_half:
  assumes "pw (- 1021) \<le> \<bar>x\<bar>"
  shows "rval (x / 2) = rval x / 2"
proof -
  have x0: "x \<noteq> 0" using assms pw_pos [of "- 1021"] by auto
  have e: "- 1021 \<le> expo x" using assms by (rule expo_ge_pw) simp
  then have lo: "pw (expo x) \<le> \<bar>x\<bar>" using x0 by (intro expo_le_abs) simp_all
  have hi: "\<bar>x\<bar> < pw (expo x + 1)" using x0 by (rule abs_less_expo)
  have ee: "expo (x / 2) = expo x - 1"
  proof (rule expo_eqI)
    show "pw (expo x - 1) \<le> \<bar>x / 2\<bar>" using lo by (simp add: pw_half)
    show "\<bar>x / 2\<bar> < pw (expo x - 1 + 1)" using hi by (simp add: pw_Suc)
    show "- 1022 \<le> expo x - 1" using e by simp
  qed
  have "ulp (x / 2) = pw (expo x - 52 - 1)"
    unfolding ulp_def ee by (rule arg_cong [where f = pw]) simp
  also have "\<dots> = pw (expo x - 52) / 2" by (rule pw_half)
  finally have u: "ulp (x / 2) = ulp x / 2" by (simp add: ulp_def)
  have "x / 2 / (ulp x / 2) = x / ulp x" by simp
  then show ?thesis by (simp add: rval_def u)
qed

lemma rval_idem_pos:
  assumes "0 < x"
  shows "rval (rval x) = rval x"
proof -
  define e where "e = expo x"
  have e: "- 1022 \<le> e" by (simp add: e_def expo_ge)
  have hi: "x < pw (e + 1)" using abs_less_expo [of x] assms by (simp add: e_def)
  have le: "rval x \<le> pw (e + 1)"
    by (rule rval_le_pw) (use assms hi e in simp_all)
  have nn: "0 \<le> rval x" using assms by (intro rval_nonneg) simp
  show ?thesis
  proof (cases "rval x = pw (e + 1)")
    case True
    show ?thesis unfolding True by (rule rval_pw) (use e in simp)
  next
    case False
    with le nn have lt: "\<bar>rval x\<bar> < pw (e + 1)" by simp
    then have "expo (rval x) \<le> e" using e by (rule expo_le)
    moreover have "e \<le> expo (rval x)"
    proof (cases "e = - 1022")
      case True
      then show ?thesis by (simp add: expo_ge)
    next
      case False
      with e have "- 1022 < expo x" by (simp add: e_def)
      then have "pw e \<le> \<bar>x\<bar>" unfolding e_def using assms by (intro expo_le_abs) simp_all
      then have "pw e \<le> x" using assms by simp
      then have "pw e \<le> rval x" using e by (rule rval_ge_pw)
      then have "pw e \<le> \<bar>rval x\<bar>" by simp
      then show ?thesis using e by (rule expo_ge_pw)
    qed
    ultimately have "expo (rval x) = expo x" by (simp add: e_def)
    then have u: "ulp (rval x) = ulp x" by (simp add: ulp_def)
    have "rval x / ulp x = of_int (rne (x / ulp x))" by (simp add: rval_def)
    then show ?thesis by (simp add: rval_def [of "rval x"] u) (simp add: rval_def)
  qed
qed

lemma rval_idem: "rval (rval x) = rval x"
proof -
  consider "x = 0" | "0 < x" | "0 < - x" by linarith
  then show ?thesis
  proof cases
    case 3
    from rval_idem_pos [OF this] show ?thesis by (simp add: rval_minus)
  qed (simp_all add: rval_idem_pos)
qed

lemma rnd_Fin_rval:
  assumes "rnd x = Fin y"
  shows "y = rval x"
  using assms by (auto simp: rnd_alt zero_of_def inf_of_def split: if_splits)


lemma rval_repr: "rnd x = Fin x \<Longrightarrow> rval x = x"
  using rnd_Fin_rval [of x x] by simp

lemma rnd_pos_Fin:
  assumes "0 < x" "pw (- 1022) \<le> x" "x \<le> pw 1023"
  shows "rnd x = Fin (rval x)" "pw (- 1022) \<le> rval x" "rval x \<le> pw 1023"
proof -
  show lo: "pw (- 1022) \<le> rval x" using assms(2) by (rule rval_ge_pw) simp
  show hi: "rval x \<le> pw 1023" by (rule rval_le_pw) (use assms in simp_all)
  have "pw 1023 < pw 1024" by (rule pw_strict_mono) simp
  with lo hi have "\<bar>rval x\<bar> < pw 1024" using pw_pos [of "- 1022"] by linarith
  then show "rnd x = Fin (rval x)" using assms(1) by (intro rnd_nonneg_Fin) simp_all
qed

section \<open>Negation and halving commute with the operations\<close>


lemma dneg_zero_of [simp]: "dneg (zero_of s) = zero_of (\<not> s)"
  by (simp add: zero_of_def)

lemma dneg_inf_of [simp]: "dneg (inf_of s) = inf_of (\<not> s)"
  by (simp add: inf_of_def)

lemma is_zero_dneg [simp]: "is_zero (dneg a) = is_zero a"
  by (cases a) (auto simp: is_zero_def)

lemma is_inf_dneg [simp]: "is_inf (dneg a) = is_inf a"
  by (cases a) (auto simp: is_inf_def)

lemma dneg_NaN_iff [simp]: "dneg a = NaN \<longleftrightarrow> a = NaN"
  by (cases a) auto



lemma half_square:
  assumes "rnd s = Fin s" "pw (- 500) \<le> s" "s \<le> pw 500"
  shows "dmul (dmul (Fin (1/2)) (Fin s)) (Fin s) = ddiv (dmul (Fin s) (Fin s)) (Fin 2)"
proof -
  have s0: "0 < s" using assms(2) pw_pos [of "- 500"] by linarith
  have rs: "rval s = s" using assms(1) by (rule rval_repr)
  have m1000: "pw (- 1000) \<le> s * s"
  proof -
    have "pw (- 500) * pw (- 500) \<le> s * s"
      using assms(2) s0 by (intro mult_mono) simp_all
    then show ?thesis by (simp flip: pw_add)
  qed
  have p1000: "s * s \<le> pw 1000"
  proof -
    have "s * s \<le> pw 500 * pw 500"
      using assms(3) s0 by (intro mult_mono) simp_all
    then show ?thesis by (simp flip: pw_add)
  qed
  have a: "pw (- 1021) \<le> pw (- 1000)" "pw (- 1022) \<le> pw (- 1000)" "pw (- 1021) \<le> pw (- 500)"
    "pw (- 1022) \<le> pw (- 1001)" "pw 1000 \<le> pw 1023" "pw 500 \<le> pw 1023"
    "pw (- 1022) \<le> pw (- 501)"
    by (intro pw_mono; simp)+
  have "rval (s / 2) = s / 2" using rval_half [of s] assms(2) a(3) s0 by (simp add: rs)
  moreover have "\<bar>s / 2\<bar> < pw 1024"
  proof -
    have "pw 500 < pw 1024" by (rule pw_strict_mono) simp
    with assms(3) s0 show ?thesis by simp
  qed
  ultimately have h: "rnd (s / 2) = Fin (s / 2)"
    using s0 rnd_nonneg_Fin [of "s / 2"] by simp
  have hs: "dmul (Fin (1/2)) (Fin s) = Fin (s / 2)"
    using s0 h by (simp add: dmul_def is_inf_def is_zero_def)
  have q: "rnd (s * s / 2) = Fin (rval (s * s) / 2)"
  proof -
    have "0 < s * s / 2" using s0 by simp
    moreover have "pw (- 1022) \<le> s * s / 2"
    proof -
      have "pw (- 1001) \<le> s * s / 2" using m1000 by (simp add: pw_half [of "- 1000", simplified])
      then show ?thesis using a(4) by linarith
    qed
    moreover have "s * s / 2 \<le> pw 1023"
    proof -
      have "0 \<le> s * s" by simp
      with p1000 a(5) show ?thesis by linarith
    qed
    ultimately have "rnd (s * s / 2) = Fin (rval (s * s / 2))" by (rule rnd_pos_Fin(1))
    moreover have "rval (s * s / 2) = rval (s * s) / 2"
      by (rule rval_half) (use m1000 a(1) in simp)
    ultimately show ?thesis by simp
  qed
  have lhs: "dmul (Fin (s / 2)) (Fin s) = Fin (rval (s * s) / 2)"
    using s0 q by (simp add: dmul_def is_inf_def is_zero_def)
  have sq: "rnd (s * s) = Fin (rval (s * s))" "pw (- 1022) \<le> rval (s * s)"
    "rval (s * s) \<le> pw 1023"
    by (rule rnd_pos_Fin; use s0 m1000 p1000 a in simp)+
  have lo: "pw (- 1000) \<le> rval (s * s)" using m1000 by (rule rval_ge_pw) simp
  then have y0: "0 < rval (s * s)" using pw_pos [of "- 1000"] by linarith
  have ss: "dmul (Fin s) (Fin s) = Fin (rval (s * s))"
    using s0 sq(1) by (simp add: dmul_def is_inf_def is_zero_def)
  have "rnd (rval (s * s) / 2) = Fin (rval (rval (s * s) / 2))"
  proof (rule rnd_pos_Fin(1))
    show "0 < rval (s * s) / 2" using y0 by simp
    have "pw (- 1001) \<le> rval (s * s) / 2" using lo by (simp add: pw_half [of "- 1000", simplified])
    then show "pw (- 1022) \<le> rval (s * s) / 2" using a(4) by linarith
    show "rval (s * s) / 2 \<le> pw 1023" using sq(3) y0 by simp
  qed
  moreover have "rval (rval (s * s) / 2) = rval (rval (s * s)) / 2"
    by (rule rval_half) (use lo a(1) y0 in simp)
  ultimately have "rnd (rval (s * s) / 2) = Fin (rval (s * s) / 2)"
    by (simp add: rval_idem)
  then have rhs: "ddiv (Fin (rval (s * s))) (Fin 2) = Fin (rval (s * s) / 2)"
    using y0 by (simp add: ddiv_def is_inf_def is_zero_def)
  show ?thesis unfolding hs lhs ss rhs ..
qed

section \<open>The kernel and the formulas of the specification\<close>



lemma d1_spec:
  assumes "rnd sigma = Fin sigma" "pw (- 500) \<le> sigma" "sigma \<le> pw 500"
  shows "d1 S K r (Fin sigma) T = spec_d1 S K r (Fin sigma) T"
  unfolding d1_def spec_d1_def half_square [OF assms] ..

lemma d2_spec:
  assumes "rnd sigma = Fin sigma" "pw (- 500) \<le> sigma" "sigma \<le> pw 500"
  shows "d2 (d1 S K r (Fin sigma) T) (Fin sigma) T = spec_d2 S K r (Fin sigma) T"
  unfolding d2_def spec_d2_def d1_spec [OF assms] ..

section \<open>Inputs on which \<open>d1\<close> and \<open>d2\<close> are numbers\<close>

lemma dmul_NaN_iff:
  "dmul a b = NaN \<longleftrightarrow>
     a = NaN \<or> b = NaN \<or> (is_inf a \<and> is_zero b) \<or> (is_zero a \<and> is_inf b)"
  by (auto simp: dmul_def inf_of_def zero_of_def)

lemma dadd_finite_not_NaN:
  assumes "is_finite a" "b \<noteq> NaN"
  shows "dadd a b \<noteq> NaN"
  using assms by (cases a; cases b) simp_all

lemma dadd_not_NaN_finite:
  assumes "a \<noteq> NaN" "is_finite b"
  shows "dadd a b \<noteq> NaN"
  using assms by (cases a; cases b) simp_all

lemma rnd_box:
  assumes "pw j \<le> x" "x \<le> pw k" "- 1022 \<le> j" "k \<le> 1023"
  shows "\<exists>y. rnd x = Fin y \<and> pw j \<le> y \<and> y \<le> pw k"
proof -
  have x0: "0 < x" using assms(1) pw_pos [of j] by linarith
  have "pw j \<le> pw k" using assms(1,2) by linarith
  then have jk: "j \<le> k" using pw_strict_mono [of k j] by (cases "j \<le> k") auto
  have lo: "pw j \<le> rval x" using assms(1,3) by (rule rval_ge_pw)
  have hi: "rval x \<le> pw k" by (rule rval_le_pw) (use x0 assms jk in simp_all)
  have "pw k < pw 1024" by (rule pw_strict_mono) (use assms(4) in simp)
  with lo hi have "\<bar>rval x\<bar> < pw 1024" using pw_pos [of j] by linarith
  then have "rnd x = Fin (rval x)" using x0 by (intro rnd_nonneg_Fin) simp_all
  then show ?thesis using lo hi by simp
qed

lemma d1_d2_not_NaN:
  assumes "0 < S" "0 < K" "pw (- 1000) \<le> S / K" "S / K \<le> pw 1000"
    and "pw (- 500) \<le> sigma" "sigma \<le> pw 500"
    and "pw (- 1000) \<le> T" "T \<le> pw 1000"
  shows "d1 (Fin S) (Fin K) (Fin r) (Fin sigma) (Fin T) \<noteq> NaN"
    and "d2 (d1 (Fin S) (Fin K) (Fin r) (Fin sigma) (Fin T)) (Fin sigma) (Fin T) \<noteq> NaN"
proof -
  have s0: "0 < sigma" using assms(5) pw_pos [of "- 500"] by linarith
  have T0: "0 < T" using assms(7) pw_pos [of "- 1000"] by linarith
  have "sqrt (pw (2 * (- 500))) \<le> sqrt T" using assms(7) by simp
  then have sl: "pw (- 500) \<le> sqrt T" by (simp only: sqrt_pw)
  have "sqrt T \<le> sqrt (pw (2 * 500))" using assms(8) by simp
  then have sh: "sqrt T \<le> pw 500" by (simp only: sqrt_pw)
  from rnd_box [OF sl sh] obtain y
    where y: "rnd (sqrt T) = Fin y" "pw (- 500) \<le> y" "y \<le> pw 500" by auto
  have y0: "0 < y" using y(2) pw_pos [of "- 500"] by linarith
  have "pw (- 500) * pw (- 500) \<le> sigma * y"
    using assms(5) y(2) s0 y0 by (intro mult_mono) simp_all
  then have zl: "pw (- 1000) \<le> sigma * y" by (simp flip: pw_add)
  have "sigma * y \<le> pw 500 * pw 500"
    using assms(6) y(3) s0 y0 by (intro mult_mono) simp_all
  then have zh: "sigma * y \<le> pw 1000" by (simp flip: pw_add)
  from rnd_box [OF zl zh] obtain z
    where z: "rnd (sigma * y) = Fin z" "pw (- 1000) \<le> z" by auto
  have z0: "0 < z" using z(2) pw_pos [of "- 1000"] by linarith
  have den: "dmul (Fin sigma) (dsqrt (Fin T)) = Fin z"
    using T0 s0 y0 y(1) z(1) by (simp add: dmul_def is_inf_def is_zero_def)
  from rnd_box [OF assms(3,4)] obtain q
    where q: "rnd (S / K) = Fin q" "pw (- 1000) \<le> q" "q \<le> pw 1000" by auto
  have q0: "0 < q" using q(2) pw_pos [of "- 1000"] by linarith
  have quot: "ddiv (Fin S) (Fin K) = Fin q"
    using assms(1,2) q(1) by (simp add: ddiv_def is_inf_def is_zero_def)
  have "\<bar>ln q\<bar> \<le> pw 1023"
  proof -
    have "ln q \<le> q" using q0 ln_le_minus_one [of q] by simp
    moreover have "- ln q \<le> 1 / q"
      using q0 ln_le_minus_one [of "1 / q"] by (simp add: ln_div)
    moreover have "1 / q \<le> pw 1000"
    proof -
      have "1 / q \<le> 1 / pw (- 1000)" using q(2) q0 by (intro divide_left_mono) simp_all
      also have "\<dots> = pw 1000" using pw_diff [of 0 "- 1000"] by simp
      finally show ?thesis .
    qed
    moreover have "pw 1000 \<le> pw 1023" by (rule pw_mono) simp
    ultimately show ?thesis using q(3) by linarith
  qed
  then have "is_finite (rnd (ln q))" by (rule rnd_finite(1))
  then have L: "is_finite (dlog (ddiv (Fin S) (Fin K)))"
    unfolding quot using q0 by simp
  have h: "dmul (dmul (Fin (1/2)) (Fin sigma)) (Fin sigma) \<noteq> NaN"
    using s0 by (simp add: dmul_NaN_iff is_inf_def is_zero_def)
  have "dadd (Fin r) (dmul (dmul (Fin (1/2)) (Fin sigma)) (Fin sigma)) \<noteq> NaN"
    by (rule dadd_finite_not_NaN) (use h in simp_all)
  then have M: "dmul (dadd (Fin r) (dmul (dmul (Fin (1/2)) (Fin sigma)) (Fin sigma))) (Fin T)
                  \<noteq> NaN"
    using T0 by (simp add: dmul_NaN_iff is_inf_def is_zero_def)
  have num: "dadd (dlog (ddiv (Fin S) (Fin K)))
               (dmul (dadd (Fin r) (dmul (dmul (Fin (1/2)) (Fin sigma)) (Fin sigma))) (Fin T))
             \<noteq> NaN"
    using L M by (rule dadd_finite_not_NaN)
  show d: "d1 (Fin S) (Fin K) (Fin r) (Fin sigma) (Fin T) \<noteq> NaN"
    unfolding d1_def den using num z0 by (rule ddiv_pos_not_NaN)
  show "d2 (d1 (Fin S) (Fin K) (Fin r) (Fin sigma) (Fin T)) (Fin sigma) (Fin T) \<noteq> NaN"
    unfolding d2_def den dsub_def using d by (intro dadd_not_NaN_finite) simp_all
qed

section \<open>The constant \<open>1 / \<surd>(2\<pi>)\<close>\<close>



lemma rne_unique:
  assumes "\<bar>x - of_int m\<bar> < 1 / 2"
  shows "rne x = m"
proof -
  have "\<bar>of_int (rne x) - x\<bar> \<le> 1 / 2" by (rule rne_err)
  with assms have "\<bar>(of_int (rne x) :: real) - of_int m\<bar> < 1" by linarith
  then have "\<bar>(of_int (rne x - m) :: real)\<bar> < 1" by simp
  then have "\<bar>rne x - m\<bar> < 1" by (simp only: of_int_abs [symmetric] of_int_less_1_iff)
  then show ?thesis by simp
qed

lemma rnd_quarter_half:
  assumes "1 / 4 \<le> x" "x < 1 / 2" "\<bar>x * 2 ^ 54 - of_int m\<bar> < 1 / 2"
  shows "rnd x = Fin (of_int m / 2 ^ 54)"
proof -
  have p2: "pw (- 2) = 1 / 4" using pw_half [of "- 1"] by simp
  have e: "expo x = - 2"
    by (rule expo_eqI) (use assms(1,2) p2 in simp_all)
  have "pw 54 * pw (- 54) = 1" by (simp flip: pw_add)
  moreover have "pw 54 = 2 ^ 54" by (simp add: pw_nat)
  ultimately have u: "ulp x = 1 / 2 ^ 54" by (simp add: ulp_def e field_simps)
  have "rne (x / ulp x) = m" unfolding u using assms(3) by (intro rne_unique) simp
  then have r: "rval x = of_int m / 2 ^ 54" by (simp add: rval_def u)
  have m0: "0 < m"
  proof (rule ccontr)
    assume "\<not> 0 < m"
    then have "(of_int m :: real) \<le> 0" by simp
    moreover have "(1::real) \<le> x * 2 ^ 54" using assms(1) by simp
    ultimately show False using assms(3) by linarith
  qed
  have "of_int m < x * 2 ^ 54 + 1 / 2" using assms(3) by linarith
  also have "\<dots> < 2 ^ 54" using assms(2) by simp
  finally have "of_int m / 2 ^ 54 < (1::real)" by simp
  moreover have "(1::real) < pw 1024" using pw_strict_mono [of 0 1024] by simp
  ultimately have "\<bar>rval x\<bar> < pw 1024" using m0 by (simp add: r)
  moreover have "0 \<le> x" using assms(1) by simp
  ultimately have "rnd x = Fin (rval x)" by (intro rnd_nonneg_Fin)
  then show ?thesis by (simp add: r)
qed


lemma INV_SQRT_2PI_value: "INV_SQRT_2PI = Fin (7186705221432913 / 2 ^ 54)"
proof -
  have "rnd (3989422804014327 / 10 ^ 16) = Fin (of_int 7186705221432913 / 2 ^ 54)"
    by (rule rnd_quarter_half) simp_all
  then show ?thesis by (simp add: INV_SQRT_2PI_def)
qed


section \<open>The density\<close>















section \<open>The Greeks and the formulas of the specification\<close>


section \<open>The sample input lies in the range of \<open>d1_d2_not_NaN\<close>\<close>

lemma sample_box:
  "pw (- 1000) \<le> (100::real) / 100" "(100::real) / 100 \<le> pw 1000"
  "pw (- 500) \<le> 1 / 2" "1 / 2 \<le> pw 500" "pw (- 1000) \<le> 1 / 4" "1 / 4 \<le> pw 1000"
proof -
  have a: "pw (- 1000) \<le> pw 0" "pw 0 \<le> pw 1000" "pw (- 500) \<le> pw (- 1)" "pw (- 1) \<le> pw 500"
    "pw (- 1000) \<le> pw (- 2)" "pw (- 2) \<le> pw 1000"
    by (rule pw_mono; simp)+
  show "pw (- 1000) \<le> (100::real) / 100" "(100::real) / 100 \<le> pw 1000"
    "pw (- 500) \<le> 1 / 2" "1 / 2 \<le> pw 500" "pw (- 1000) \<le> 1 / 4" "1 / 4 \<le> pw 1000"
    using a by (simp_all add: pw_small)
qed

section \<open>Inputs on which gamma and vega are numbers\<close>

lemma dexp_not_NaN: "a \<noteq> NaN \<Longrightarrow> dexp a \<noteq> NaN"
  by (cases a) simp_all

lemma norm_pdf_not_NaN:
  assumes "x \<noteq> NaN"
  shows "norm_pdf x \<noteq> NaN"
proof -
  define m where "m = dmul (dneg (Fin (1/2))) x"
  have y: "m \<noteq> NaN"
    unfolding m_def using assms by (simp add: dmul_NaN_iff is_inf_def is_zero_def)
  have z: "\<not> (is_zero m \<and> is_inf x)"
    unfolding m_def using assms
    by (cases x) (auto simp: dmul_def is_inf_def is_zero_def inf_of_def)
  have i: "\<not> (is_inf m \<and> is_zero x)"
    unfolding m_def using assms
    by (cases x) (auto simp: dmul_def is_inf_def is_zero_def zero_of_def)
  have "dmul m x \<noteq> NaN"
    using assms y z i by (simp only: dmul_NaN_iff) blast
  then have "dexp (dmul m x) \<noteq> NaN" by (rule dexp_not_NaN)
  then have "dmul (Fin (7186705221432913 / 2 ^ 54)) (dexp (dmul m x)) \<noteq> NaN"
    by (simp add: dmul_NaN_iff is_inf_def is_zero_def)
  then show ?thesis
    unfolding norm_pdf_def INV_SQRT_2PI_value m_def .
qed

lemma dmul_pos_not_NaN:
  assumes "a \<noteq> NaN" "0 < c"
  shows "dmul a (Fin c) \<noteq> NaN" "dmul (Fin c) a \<noteq> NaN"
  using assms by (simp_all add: dmul_NaN_iff is_inf_def is_zero_def)

lemma gamma_vega_not_NaN:
  assumes "pw (- 20) \<le> S" "S \<le> pw 20" "0 < K" "pw (- 1000) \<le> S / K" "S / K \<le> pw 1000"
    and "pw (- 500) \<le> sigma" "sigma \<le> pw 500"
    and "pw (- 1000) \<le> T" "T \<le> pw 1000"
  shows "gamma (compute_greeks (Fin S) (Fin K) (Fin r) (Fin sigma) (Fin T) otype) \<noteq> NaN"
    and "vega (compute_greeks (Fin S) (Fin K) (Fin r) (Fin sigma) (Fin T) otype) \<noteq> NaN"
proof -
  have S0: "0 < S" using assms(1) pw_pos [of "- 20"] by linarith
  have s0: "0 < sigma" using assms(6) pw_pos [of "- 500"] by linarith
  have T0: "0 < T" using assms(8) pw_pos [of "- 1000"] by linarith
  have d: "d1 (Fin S) (Fin K) (Fin r) (Fin sigma) (Fin T) \<noteq> NaN"
    using S0 assms(3-9) by (rule d1_d2_not_NaN(1))
  then have n: "norm_pdf (d1 (Fin S) (Fin K) (Fin r) (Fin sigma) (Fin T)) \<noteq> NaN"
    by (rule norm_pdf_not_NaN)
  have "sqrt (pw (2 * (- 500))) \<le> sqrt T" using assms(8) by simp
  then have sl: "pw (- 500) \<le> sqrt T" by (simp only: sqrt_pw)
  have "sqrt T \<le> sqrt (pw (2 * 500))" using assms(9) by simp
  then have sh: "sqrt T \<le> pw 500" by (simp only: sqrt_pw)
  from rnd_box [OF sl sh] obtain y
    where y: "rnd (sqrt T) = Fin y" "pw (- 500) \<le> y" "y \<le> pw 500" by auto
  have y0: "0 < y" using y(2) pw_pos [of "- 500"] by linarith
  have sq: "dsqrt (Fin T) = Fin y" using T0 y(1) by simp
  have "pw (- 20) * pw (- 500) \<le> S * sigma"
    using assms(1,6) S0 s0 by (intro mult_mono) simp_all
  then have al: "pw (- 520) \<le> S * sigma" by (simp flip: pw_add)
  have "S * sigma \<le> pw 20 * pw 500"
    using assms(2,7) S0 s0 by (intro mult_mono) simp_all
  then have ah: "S * sigma \<le> pw 520" by (simp flip: pw_add)
  from rnd_box [OF al ah] obtain a
    where a: "rnd (S * sigma) = Fin a" "pw (- 520) \<le> a" "a \<le> pw 520" by auto
  have a0: "0 < a" using a(2) pw_pos [of "- 520"] by linarith
  have Ss: "dmul (Fin S) (Fin sigma) = Fin a"
    using S0 s0 a(1) by (simp add: dmul_def is_inf_def is_zero_def)
  have "pw (- 520) * pw (- 500) \<le> a * y"
    using a(2) y(2) a0 y0 by (intro mult_mono) simp_all
  then have zl: "pw (- 1020) \<le> a * y" by (simp flip: pw_add)
  have "a * y \<le> pw 520 * pw 500"
    using a(3) y(3) a0 y0 by (intro mult_mono) simp_all
  then have zh: "a * y \<le> pw 1020" by (simp flip: pw_add)
  from rnd_box [OF zl zh] obtain z
    where z: "rnd (a * y) = Fin z" "pw (- 1020) \<le> z" by auto
  have z0: "0 < z" using z(2) pw_pos [of "- 1020"] by linarith
  have den: "dmul (dmul (Fin S) (Fin sigma)) (dsqrt (Fin T)) = Fin z"
    unfolding Ss sq using a0 y0 z(1) by (simp add: dmul_def is_inf_def is_zero_def)
  show "gamma (compute_greeks (Fin S) (Fin K) (Fin r) (Fin sigma) (Fin T) otype) \<noteq> NaN"
    unfolding gamma_any den using n z0 by (rule ddiv_pos_not_NaN)
  have "dmul (Fin S) (norm_pdf (d1 (Fin S) (Fin K) (Fin r) (Fin sigma) (Fin T))) \<noteq> NaN"
    using n S0 by (rule dmul_pos_not_NaN(2))
  then have "dmul (dmul (Fin S) (norm_pdf (d1 (Fin S) (Fin K) (Fin r) (Fin sigma) (Fin T))))
               (Fin y) \<noteq> NaN"
    using y0 by (rule dmul_pos_not_NaN(1))
  then show "vega (compute_greeks (Fin S) (Fin K) (Fin r) (Fin sigma) (Fin T) otype) \<noteq> NaN"
    unfolding vega_any sq by (rule ddiv_pos_not_NaN) simp
qed

lemma sample_spot: "pw (- 20) \<le> (100::real)" "(100::real) \<le> pw 20"
proof -
  have "pw (- 20) \<le> pw 0" by (rule pw_mono) simp
  then show "pw (- 20) \<le> (100::real)" by simp
  have "(100::real) \<le> pw 7" by (simp add: pw_nat)
  also have "\<dots> \<le> pw 20" by (rule pw_mono) simp
  finally show "(100::real) \<le> pw 20" .
qed

section \<open>The batch evaluator: order, length and frame\<close>

lemma price_batch_loop_contracts:
  "contracts (price_batch_loop i st) = contracts st"
proof (induction i st rule: price_batch_loop.induct)
  case (1 i st)
  show ?case
  proof (cases "i < length (contracts st)")
    case True
    with "1" show ?thesis by (subst price_batch_loop.simps) simp
  next
    case False
    then show ?thesis by (subst price_batch_loop.simps) simp
  qed
qed

lemma price_batch_loop_prices:
  "i \<le> length (contracts st) \<Longrightarrow>
   prices (price_batch_loop i st) = prices st @ map price_contract (drop i (contracts st))"
proof (induction i st rule: price_batch_loop.induct)
  case (1 i st)
  show ?case
  proof (cases "i < length (contracts st)")
    case True
    then have "drop i (contracts st) = contracts st ! i # drop (Suc i) (contracts st)"
      by (simp add: Cons_nth_drop_Suc)
    with True "1" show ?thesis by (subst price_batch_loop.simps) simp
  next
    case False
    with "1.prems" show ?thesis by (subst price_batch_loop.simps) simp
  qed
qed

lemma price_batch_map: "price_batch cs = map price_contract cs"
  by (simp add: price_batch_def price_batch_run_def price_batch_loop_prices)

section \<open>Claims about the batch evaluator\<close>

text \<open>
  C1. For every finite sequence of contracts \<open>price_batch\<close> returns a sequence of the same
  length, whose element at each index \<open>i\<close> is \<open>price_option\<close> applied to the fields of the
  contract at index \<open>i\<close> and to nothing else; the empty sequence gives the empty sequence.
\<close>

theorem price_batch_order:
  "length (price_batch cs) = length cs
   \<and> (\<forall>i<length cs.
         price_batch cs ! i =
           price_option (c_S (cs ! i)) (c_K (cs ! i)) (c_r (cs ! i)) (c_sigma (cs ! i))
             (c_T (cs ! i)) (option_type (cs ! i)))
   \<and> price_batch [] = []"
  by (simp add: price_batch_map price_contract_def)

theorem price_batch_order_witness:
  "(1::nat) < length [sample_contract, sample_contract\<lparr>option_type := PUT\<rparr>]
   \<and> length (price_batch [sample_contract, sample_contract\<lparr>option_type := PUT\<rparr>]) = 2
   \<and> price_batch [sample_contract, sample_contract\<lparr>option_type := PUT\<rparr>] ! 1 =
         price_option (Fin 100) (Fin 105) (Fin (1/20)) (Fin (1/5)) (Fin (1/2)) PUT"
  using price_batch_order [of "[sample_contract, sample_contract\<lparr>option_type := PUT\<rparr>]"]
  by (simp add: sample_contract_def)

text \<open>
  C10. \<open>price_batch\<close> does not modify its input: in the state in which the run ends, the
  caller's vector \<open>contracts\<close> is the vector the run was started on. The state of a run holds
  nothing but that vector and the local result vector.
\<close>

theorem price_batch_frame: "contracts (price_batch_run cs) = cs"
  by (simp add: price_batch_run_def price_batch_loop_contracts)

section \<open>Claims about the pricing kernel\<close>

text \<open>
  C2, as stated: a violation of \<open>S > 0\<close>, \<open>K > 0\<close>, \<open>\<sigma> > 0\<close>, \<open>T > 0\<close> is treated as an error and
  never answered with a silent NaN. The kernel has no check: at expiry (\<open>T = 0\<close>) and at the
  money (\<open>S = K = 100\<close>) \<open>price_option\<close> returns NaN and \<open>compute_greeks\<close> returns NaN in every
  field.
\<close>

theorem price_option_silent_NaN:
  "price_option (Fin 100) (Fin 100) (Fin (1/20)) (Fin (1/5)) (Fin 0) CALL = NaN
   \<and> compute_greeks (Fin 100) (Fin 100) (Fin (1/20)) (Fin (1/5)) (Fin 0) CALL
       = \<lparr>delta = NaN, gamma = NaN, vega = NaN, theta = NaN\<rparr>"
proof -
  have "d1 (Fin 100) (Fin 100) (Fin (1/20)) (Fin (1/5)) (Fin 0) = NaN"
    by (rule d1_expiry_atm) simp_all
  then show ?thesis
    by (simp add: price_option_NaN compute_greeks_NaN)
qed

text \<open>
  C2, amended: the kernel does not check its precondition and reports no error; a violation
  yields the IEEE value of the unguarded formula. For finite \<open>\<sigma>\<close> and \<open>T \<ge> 0\<close> with \<open>T = 0\<close> or
  \<open>\<sigma> = 0\<close> the divisor \<open>\<sigma>\<cdot>\<surd>T\<close> of \<open>d1\<close> is a zero (\<open>T\<close> below \<open>2\<^sup>1\<^sup>0\<^sup>2\<^sup>4\<close>, as every finite
  \<open>double\<close> is) and \<open>d1\<close> is an infinity or NaN, whatever \<open>S\<close>, \<open>K\<close> and \<open>r\<close> are; for \<open>T = 0\<close> with
  \<open>S = K > 0\<close> and \<open>\<sigma> > 0\<close>, \<open>price_option\<close> returns NaN and \<open>compute_greeks\<close> returns NaN in
  every field, for both option types.
\<close>

theorem kernel_unchecked:
  assumes "0 \<le> T" "T = 0 \<or> sigma = 0" "0 < spot" "0 < vol"
  shows "(T < pw 1024 \<longrightarrow> is_zero (dmul (Fin sigma) (dsqrt (Fin T))))
       \<and> \<not> is_finite (d1 S K r (Fin sigma) (Fin T))
       \<and> price_option (Fin spot) (Fin spot) (Fin rate) (Fin vol) (Fin 0) otype = NaN
       \<and> compute_greeks (Fin spot) (Fin spot) (Fin rate) (Fin vol) (Fin 0) otype
           = \<lparr>delta = NaN, gamma = NaN, vega = NaN, theta = NaN\<rparr>"
proof -
  have z: "T < pw 1024 \<longrightarrow> is_zero (dmul (Fin sigma) (dsqrt (Fin T)))"
  proof
    assume "T < pw 1024"
    with assms(1) show "is_zero (dmul (Fin sigma) (dsqrt (Fin T)))"
      using assms(2) by (rule d1_divisor_zero)
  qed
  have "\<not> is_finite (d1 S K r (Fin sigma) (Fin T))"
  proof (cases "T < pw 1024")
    case True
    with z show ?thesis unfolding d1_def by (simp add: ddiv_by_zero)
  next
    case False
    then have "T \<noteq> 0" using pw_pos [of 1024] by auto
    with assms(2) have s: "sigma = 0" by simp
    have "\<not> is_finite (ddiv a (dmul (Fin 0) b))" if "b \<noteq> NaN" for a b
    proof (cases "is_finite b")
      case True
      then show ?thesis by (intro ddiv_by_zero dmul_zero_left)
    next
      case False
      with that have "dmul (Fin 0) b = NaN"
        by (cases b) (simp_all add: dmul_def is_zero_def is_inf_def)
      then show ?thesis by (simp add: ddiv_NaN)
    qed
    from this [of "rnd (sqrt T)"] show ?thesis
      unfolding d1_def s using assms(1) by simp
  qed
  moreover have n: "d1 (Fin spot) (Fin spot) (Fin rate) (Fin vol) (Fin 0) = NaN"
    using assms(3,4) by (rule d1_expiry_atm)
  ultimately show ?thesis
    using z price_option_NaN [OF n] compute_greeks_NaN [OF n] by simp
qed

theorem kernel_unchecked_witness:
  "(0::real) \<le> 2 \<and> ((2::real) = 0 \<or> (0::real) = 0) \<and> (0::real) < 50 \<and> (0::real) < 3/10
   \<and> (2::real) < pw 1024
   \<and> is_zero (dmul (Fin 0) (dsqrt (Fin 2)))
   \<and> \<not> is_finite (d1 (Fin 120) (Fin 100) (Fin (1/20)) (Fin 0) (Fin 2))
   \<and> price_option (Fin 50) (Fin 50) (Fin (1/50)) (Fin (3/10)) (Fin 0) PUT = NaN
   \<and> compute_greeks (Fin 50) (Fin 50) (Fin (1/50)) (Fin (3/10)) (Fin 0) PUT
       = \<lparr>delta = NaN, gamma = NaN, vega = NaN, theta = NaN\<rparr>"
proof -
  have "pw 1 < pw 1024" by (rule pw_strict_mono) simp
  then have "(2::real) < pw 1024" by simp
  then show ?thesis
    using kernel_unchecked [where T = 2 and sigma = 0 and spot = 50 and vol = "3/10"
        and S = "Fin 120" and K = "Fin 100" and r = "Fin (1/20)" and rate = "1/50"
        and otype = PUT]
    by simp
qed










text \<open>
  C6, as stated: on every valid input the gamma of a call equals the gamma of a put, and so do
  the vegas, within \<open>1e-10\<close>. At the valid input \<open>S = K = 100\<close>, \<open>r = 0\<close>, \<open>\<sigma> = 2\<^sup>-\<^sup>6\<^sup>0\<^sup>0\<close>,
  \<open>T = 2\<^sup>-\<^sup>1\<^sup>0\<^sup>0\<^sup>0\<close> both \<open>\<sigma>\<^sup>2/2\<close> and \<open>\<sigma>\<cdot>\<surd>T\<close> underflow to zero, \<open>d1\<close> is \<open>0/0\<close>, gamma and vega are
  NaN for both option types, and NaN compares equal to nothing.
\<close>

theorem gamma_vega_underflow_unequal:
  "(0::real) < 100 \<and> 0 < pw (- 600) \<and> 0 < pw (- 1000)
   \<and> gamma (compute_greeks (Fin 100) (Fin 100) (Fin 0) (Fin (pw (- 600))) (Fin (pw (- 1000))) CALL)
       = NaN
   \<and> \<not> deq (gamma (compute_greeks (Fin 100) (Fin 100) (Fin 0) (Fin (pw (- 600)))
                     (Fin (pw (- 1000))) CALL))
            (gamma (compute_greeks (Fin 100) (Fin 100) (Fin 0) (Fin (pw (- 600)))
                     (Fin (pw (- 1000))) PUT))
   \<and> \<not> deq (vega (compute_greeks (Fin 100) (Fin 100) (Fin 0) (Fin (pw (- 600)))
                    (Fin (pw (- 1000))) CALL))
            (vega (compute_greeks (Fin 100) (Fin 100) (Fin 0) (Fin (pw (- 600)))
                    (Fin (pw (- 1000))) PUT))"
  by (simp add: compute_greeks_NaN [OF d1_underflow] deq_def)

text \<open>
  C6, amended: gamma and vega are computed without reference to the option type. On every
  input, valid or not, \<open>compute_greeks\<close> returns the same gamma and the same vega for a call
  and for a put; the comparison \<open>==\<close> of the two holds exactly when that value is not NaN. It
  holds for all finite inputs with \<open>2\<^sup>-\<^sup>2\<^sup>0 \<le> S \<le> 2\<^sup>2\<^sup>0\<close>, \<open>K > 0\<close>, \<open>2\<^sup>-\<^sup>1\<^sup>0\<^sup>0\<^sup>0 \<le> S/K \<le> 2\<^sup>1\<^sup>0\<^sup>0\<^sup>0\<close>,
  \<open>2\<^sup>-\<^sup>5\<^sup>0\<^sup>0 \<le> \<sigma> \<le> 2\<^sup>5\<^sup>0\<^sup>0\<close> and \<open>2\<^sup>-\<^sup>1\<^sup>0\<^sup>0\<^sup>0 \<le> T \<le> 2\<^sup>1\<^sup>0\<^sup>0\<^sup>0\<close>.
\<close>

theorem gamma_vega_identical:
  "gamma (compute_greeks S K r sigma T CALL) = gamma (compute_greeks S K r sigma T PUT)
   \<and> vega (compute_greeks S K r sigma T CALL) = vega (compute_greeks S K r sigma T PUT)
   \<and> (deq (gamma (compute_greeks S K r sigma T CALL)) (gamma (compute_greeks S K r sigma T PUT))
        \<longleftrightarrow> gamma (compute_greeks S K r sigma T CALL) \<noteq> NaN)
   \<and> (deq (vega (compute_greeks S K r sigma T CALL)) (vega (compute_greeks S K r sigma T PUT))
        \<longleftrightarrow> vega (compute_greeks S K r sigma T CALL) \<noteq> NaN)
   \<and> (pw (- 20) \<le> s \<and> s \<le> pw 20 \<and> 0 < k \<and> pw (- 1000) \<le> s / k \<and> s / k \<le> pw 1000
        \<and> pw (- 500) \<le> v \<and> v \<le> pw 500 \<and> pw (- 1000) \<le> t \<and> t \<le> pw 1000 \<longrightarrow>
      deq (gamma (compute_greeks (Fin s) (Fin k) (Fin rho) (Fin v) (Fin t) CALL))
          (gamma (compute_greeks (Fin s) (Fin k) (Fin rho) (Fin v) (Fin t) PUT))
      \<and> deq (vega (compute_greeks (Fin s) (Fin k) (Fin rho) (Fin v) (Fin t) CALL))
            (vega (compute_greeks (Fin s) (Fin k) (Fin rho) (Fin v) (Fin t) PUT)))"
proof -
  have e: "gamma (compute_greeks S K r sigma T CALL) = gamma (compute_greeks S K r sigma T PUT)"
    "vega (compute_greeks S K r sigma T CALL) = vega (compute_greeks S K r sigma T PUT)"
    for S K r sigma T
    by (simp_all add: gamma_any vega_any)
  have q: "deq a a \<longleftrightarrow> a \<noteq> NaN" for a by (simp add: deq_def)
  have b: "gamma (compute_greeks (Fin s) (Fin k) (Fin rho) (Fin v) (Fin t) CALL) \<noteq> NaN
         \<and> vega (compute_greeks (Fin s) (Fin k) (Fin rho) (Fin v) (Fin t) CALL) \<noteq> NaN"
    if "pw (- 20) \<le> s \<and> s \<le> pw 20 \<and> 0 < k \<and> pw (- 1000) \<le> s / k \<and> s / k \<le> pw 1000
        \<and> pw (- 500) \<le> v \<and> v \<le> pw 500 \<and> pw (- 1000) \<le> t \<and> t \<le> pw 1000"
    using gamma_vega_not_NaN [of s k v t rho CALL] that by blast
  show ?thesis
    unfolding e [of S K r sigma T, symmetric] e [of "Fin s" "Fin k" "Fin rho" "Fin v" "Fin t", symmetric]
      q
    using b by blast
qed

theorem gamma_vega_identical_witness:
  "pw (- 20) \<le> (100::real) \<and> (100::real) \<le> pw 20
   \<and> pw (- 1000) \<le> (100::real) / 100 \<and> (100::real) / 100 \<le> pw 1000
   \<and> pw (- 500) \<le> 1/2 \<and> 1/2 \<le> pw 500 \<and> pw (- 1000) \<le> 1/4 \<and> 1/4 \<le> pw 1000
   \<and> gamma (compute_greeks (Fin 100) (Fin 100) (Fin (1/16)) (Fin (1/2)) (Fin (1/4)) CALL)
       = gamma (compute_greeks (Fin 100) (Fin 100) (Fin (1/16)) (Fin (1/2)) (Fin (1/4)) PUT)
   \<and> deq (gamma (compute_greeks (Fin 100) (Fin 100) (Fin (1/16)) (Fin (1/2)) (Fin (1/4)) CALL))
         (gamma (compute_greeks (Fin 100) (Fin 100) (Fin (1/16)) (Fin (1/2)) (Fin (1/4)) PUT))
   \<and> deq (vega (compute_greeks (Fin 100) (Fin 100) (Fin (1/16)) (Fin (1/2)) (Fin (1/4)) CALL))
         (vega (compute_greeks (Fin 100) (Fin 100) (Fin (1/16)) (Fin (1/2)) (Fin (1/4)) PUT))"
proof -
  have k: "(0::real) < 100" by simp
  show ?thesis
    using gamma_vega_identical [of "Fin 100" "Fin 100" "Fin (1/16)" "Fin (1/2)" "Fin (1/4)"
        100 100 "1/2" "1/4" "1/16"] sample_box sample_spot k
    by blast
qed

text \<open>
  C7, as stated: on every valid input delta lies in \<open>[0, 1]\<close> for a call and in \<open>[-1, 0]\<close> for a
  put, and gamma and vega are at least \<open>0\<close>. At the valid input \<open>S = K = 100\<close>, \<open>r = 0\<close>,
  \<open>\<sigma> = 2\<^sup>-\<^sup>6\<^sup>0\<^sup>0\<close>, \<open>T = 2\<^sup>-\<^sup>1\<^sup>0\<^sup>0\<^sup>0\<close> all of them are NaN, and every comparison with NaN is false.
\<close>

theorem greeks_underflow_out_of_range:
  "(0::real) < 100 \<and> 0 < pw (- 600) \<and> 0 < pw (- 1000)
   \<and> \<not> dle (Fin 0) (delta (compute_greeks (Fin 100) (Fin 100) (Fin 0) (Fin (pw (- 600)))
                           (Fin (pw (- 1000))) CALL))
   \<and> \<not> dle (delta (compute_greeks (Fin 100) (Fin 100) (Fin 0) (Fin (pw (- 600)))
                    (Fin (pw (- 1000))) PUT)) (Fin 0)
   \<and> \<not> dle (Fin 0) (gamma (compute_greeks (Fin 100) (Fin 100) (Fin 0) (Fin (pw (- 600)))
                           (Fin (pw (- 1000))) CALL))
   \<and> \<not> dle (Fin 0) (vega (compute_greeks (Fin 100) (Fin 100) (Fin 0) (Fin (pw (- 600)))
                          (Fin (pw (- 1000))) CALL))"
  by (simp add: compute_greeks_NaN [OF d1_underflow])

text \<open>
  C7, amended: for finite \<open>S, K, \<sigma>, T > 0\<close> and finite \<open>r\<close>, whenever \<open>d1\<close> is not NaN, delta lies
  in \<open>[0, 1]\<close> for a call and in \<open>[-1, 0]\<close> for a put; gamma and vega are each NaN or at least
  \<open>0\<close>, for both option types. \<open>d1\<close> is NaN when its quotient is \<open>0/0\<close> or \<open>inf/inf\<close> after
  underflow or overflow of an intermediate result; it is not NaN when
  \<open>2\<^sup>-\<^sup>1\<^sup>0\<^sup>0\<^sup>0 \<le> S/K \<le> 2\<^sup>1\<^sup>0\<^sup>0\<^sup>0\<close>, \<open>2\<^sup>-\<^sup>5\<^sup>0\<^sup>0 \<le> \<sigma> \<le> 2\<^sup>5\<^sup>0\<^sup>0\<close> and \<open>2\<^sup>-\<^sup>1\<^sup>0\<^sup>0\<^sup>0 \<le> T \<le> 2\<^sup>1\<^sup>0\<^sup>0\<^sup>0\<close>, and then
  gamma and vega are at least \<open>0\<close> if also \<open>2\<^sup>-\<^sup>2\<^sup>0 \<le> S \<le> 2\<^sup>2\<^sup>0\<close>.
\<close>

theorem greeks_ranges:
  assumes "0 < S" "0 < K" "0 < sigma" "0 < T"
  shows "(d1 (Fin S) (Fin K) (Fin r) (Fin sigma) (Fin T) \<noteq> NaN \<longrightarrow>
            dle (Fin 0) (delta (compute_greeks (Fin S) (Fin K) (Fin r) (Fin sigma) (Fin T) CALL))
          \<and> dle (delta (compute_greeks (Fin S) (Fin K) (Fin r) (Fin sigma) (Fin T) CALL)) (Fin 1)
          \<and> dle (Fin (- 1)) (delta (compute_greeks (Fin S) (Fin K) (Fin r) (Fin sigma) (Fin T) PUT))
          \<and> dle (delta (compute_greeks (Fin S) (Fin K) (Fin r) (Fin sigma) (Fin T) PUT)) (Fin 0))
       \<and> (gamma (compute_greeks (Fin S) (Fin K) (Fin r) (Fin sigma) (Fin T) otype) = NaN
          \<or> dle (Fin 0) (gamma (compute_greeks (Fin S) (Fin K) (Fin r) (Fin sigma) (Fin T) otype)))
       \<and> (vega (compute_greeks (Fin S) (Fin K) (Fin r) (Fin sigma) (Fin T) otype) = NaN
          \<or> dle (Fin 0) (vega (compute_greeks (Fin S) (Fin K) (Fin r) (Fin sigma) (Fin T) otype)))
       \<and> (pw (- 1000) \<le> S / K \<and> S / K \<le> pw 1000 \<and> pw (- 500) \<le> sigma \<and> sigma \<le> pw 500
            \<and> pw (- 1000) \<le> T \<and> T \<le> pw 1000 \<longrightarrow>
          d1 (Fin S) (Fin K) (Fin r) (Fin sigma) (Fin T) \<noteq> NaN
          \<and> (pw (- 20) \<le> S \<and> S \<le> pw 20 \<longrightarrow>
               dle (Fin 0)
                   (gamma (compute_greeks (Fin S) (Fin K) (Fin r) (Fin sigma) (Fin T) otype))
             \<and> dle (Fin 0)
                   (vega (compute_greeks (Fin S) (Fin K) (Fin r) (Fin sigma) (Fin T) otype))))"
proof -
  let ?d = "d1 (Fin S) (Fin K) (Fin r) (Fin sigma) (Fin T)"
  let ?g = "gamma (compute_greeks (Fin S) (Fin K) (Fin r) (Fin sigma) (Fin T) otype)"
  let ?v = "vega (compute_greeks (Fin S) (Fin K) (Fin r) (Fin sigma) (Fin T) otype)"
  have s: "\<not> signbit (Fin S)" "\<not> signbit (Fin sigma)" using assms by simp_all
  have d: "dle (Fin 0) (norm_cdf ?d) \<and> dle (norm_cdf ?d) (Fin 1)
           \<and> dle (Fin (- 1)) (dsub (norm_cdf ?d) (Fin 1))
           \<and> dle (dsub (norm_cdf ?d) (Fin 1)) (Fin 0)" if "?d \<noteq> NaN"
  proof -
    from norm_cdf_range [OF that] obtain n where n: "norm_cdf ?d = Fin n" "0 \<le> n" "n \<le> 1"
      by auto
    from sub_one(1,2) [OF n(2,3)] n show ?thesis by simp
  qed
  have "\<not> signbit (ddiv (norm_pdf ?d) (dmul (dmul (Fin S) (Fin sigma)) (dsqrt (Fin T))))"
    by (intro nsb_ddiv nsb_dmul nsb_norm_pdf nsb_dsqrt s)
  then have g: "?g = NaN \<or> dle (Fin 0) ?g" unfolding gamma_any by (rule nsb_dle)
  have "\<not> signbit (ddiv (dmul (dmul (Fin S) (norm_pdf ?d)) (dsqrt (Fin T))) (Fin 100))"
    by (intro nsb_ddiv nsb_dmul nsb_norm_pdf nsb_dsqrt s) simp
  then have v: "?v = NaN \<or> dle (Fin 0) ?v" unfolding vega_any by (rule nsb_dle)
  have b: "?d \<noteq> NaN"
    if "pw (- 1000) \<le> S / K \<and> S / K \<le> pw 1000 \<and> pw (- 500) \<le> sigma \<and> sigma \<le> pw 500
        \<and> pw (- 1000) \<le> T \<and> T \<le> pw 1000"
    using d1_d2_not_NaN(1) [OF assms(1,2)] that by blast
  have n: "?g \<noteq> NaN \<and> ?v \<noteq> NaN"
    if "pw (- 1000) \<le> S / K \<and> S / K \<le> pw 1000 \<and> pw (- 500) \<le> sigma \<and> sigma \<le> pw 500
        \<and> pw (- 1000) \<le> T \<and> T \<le> pw 1000" "pw (- 20) \<le> S \<and> S \<le> pw 20"
    using gamma_vega_not_NaN [of S K sigma T r otype] assms(2) that by blast
  show ?thesis
    unfolding delta_CALL delta_PUT
    using d g v b n by blast
qed

theorem greeks_ranges_witness:
  "(0::real) < 100 \<and> (0::real) < 1/2 \<and> (0::real) < 1/4
   \<and> pw (- 1000) \<le> (100::real) / 100 \<and> (100::real) / 100 \<le> pw 1000
   \<and> pw (- 500) \<le> 1/2 \<and> 1/2 \<le> pw 500 \<and> pw (- 1000) \<le> 1/4 \<and> 1/4 \<le> pw 1000
   \<and> pw (- 20) \<le> (100::real) \<and> (100::real) \<le> pw 20
   \<and> d1 (Fin 100) (Fin 100) (Fin 0) (Fin (1/2)) (Fin (1/4)) \<noteq> NaN
   \<and> dle (Fin 0) (delta (compute_greeks (Fin 100) (Fin 100) (Fin 0) (Fin (1/2)) (Fin (1/4)) CALL))
   \<and> dle (delta (compute_greeks (Fin 100) (Fin 100) (Fin 0) (Fin (1/2)) (Fin (1/4)) CALL)) (Fin 1)
   \<and> dle (Fin (- 1))
         (delta (compute_greeks (Fin 100) (Fin 100) (Fin 0) (Fin (1/2)) (Fin (1/4)) PUT))
   \<and> dle (delta (compute_greeks (Fin 100) (Fin 100) (Fin 0) (Fin (1/2)) (Fin (1/4)) PUT)) (Fin 0)
   \<and> dle (Fin 0) (gamma (compute_greeks (Fin 100) (Fin 100) (Fin 0) (Fin (1/2)) (Fin (1/4)) PUT))
   \<and> dle (Fin 0) (vega (compute_greeks (Fin 100) (Fin 100) (Fin 0) (Fin (1/2)) (Fin (1/4)) PUT))"
  using greeks_ranges [where S = 100 and K = 100 and r = 0 and sigma = "1/2" and T = "1/4"
      and otype = PUT] sample_box sample_spot
  by simp

text \<open>
  C9, as stated: on every valid input the delta of a call minus the delta of a put is exactly
  \<open>1\<close>. At the valid input \<open>S = K = 100\<close>, \<open>r = 0\<close>, \<open>\<sigma> = 2\<^sup>-\<^sup>6\<^sup>0\<^sup>0\<close>, \<open>T = 2\<^sup>-\<^sup>1\<^sup>0\<^sup>0\<^sup>0\<close> both deltas are
  NaN and so is their difference.
\<close>

theorem delta_difference_underflow:
  "(0::real) < 100 \<and> 0 < pw (- 600) \<and> 0 < pw (- 1000)
   \<and> dsub (delta (compute_greeks (Fin 100) (Fin 100) (Fin 0) (Fin (pw (- 600)))
                   (Fin (pw (- 1000))) CALL))
           (delta (compute_greeks (Fin 100) (Fin 100) (Fin 0) (Fin (pw (- 600)))
                   (Fin (pw (- 1000))) PUT)) = NaN
   \<and> \<not> deq (dsub (delta (compute_greeks (Fin 100) (Fin 100) (Fin 0) (Fin (pw (- 600)))
                          (Fin (pw (- 1000))) CALL))
                  (delta (compute_greeks (Fin 100) (Fin 100) (Fin 0) (Fin (pw (- 600)))
                          (Fin (pw (- 1000))) PUT)))
            (Fin 1)"
  by (simp add: compute_greeks_NaN [OF d1_underflow] dsub_NaN deq_def)

text \<open>
  C9, amended: on every input, valid or not, the delta of a call minus the delta of a put is
  exactly \<open>1\<close> when \<open>d1\<close> is not NaN (an infinite \<open>d1\<close> included), and NaN when \<open>d1\<close> is NaN: both
  branches evaluate the same \<open>N(d1)\<close>, a \<open>double\<close> \<open>n\<close> in \<open>[0, 1]\<close>, the put branch subtracts \<open>1\<close>
  from it, and \<open>n - (n - 1)\<close> is \<open>1\<close> in binary64 for every such \<open>n\<close>. In particular the difference
  is exactly \<open>1\<close> for finite \<open>S, K > 0\<close> with \<open>2\<^sup>-\<^sup>1\<^sup>0\<^sup>0\<^sup>0 \<le> S/K \<le> 2\<^sup>1\<^sup>0\<^sup>0\<^sup>0\<close>, \<open>2\<^sup>-\<^sup>5\<^sup>0\<^sup>0 \<le> \<sigma> \<le> 2\<^sup>5\<^sup>0\<^sup>0\<close>,
  \<open>2\<^sup>-\<^sup>1\<^sup>0\<^sup>0\<^sup>0 \<le> T \<le> 2\<^sup>1\<^sup>0\<^sup>0\<^sup>0\<close> and any finite \<open>r\<close>.
\<close>

theorem delta_call_minus_put:
  "(d1 S K r sigma T \<noteq> NaN \<longrightarrow>
      dsub (delta (compute_greeks S K r sigma T CALL))
           (delta (compute_greeks S K r sigma T PUT)) = Fin 1)
   \<and> (d1 S K r sigma T = NaN \<longrightarrow>
      dsub (delta (compute_greeks S K r sigma T CALL))
           (delta (compute_greeks S K r sigma T PUT)) = NaN)
   \<and> (0 < s \<and> 0 < k \<and> pw (- 1000) \<le> s / k \<and> s / k \<le> pw 1000
        \<and> pw (- 500) \<le> v \<and> v \<le> pw 500 \<and> pw (- 1000) \<le> t \<and> t \<le> pw 1000 \<longrightarrow>
      dsub (delta (compute_greeks (Fin s) (Fin k) (Fin rho) (Fin v) (Fin t) CALL))
           (delta (compute_greeks (Fin s) (Fin k) (Fin rho) (Fin v) (Fin t) PUT)) = Fin 1)"
proof -
  have one: "dsub (delta (compute_greeks S K r sigma T CALL))
                  (delta (compute_greeks S K r sigma T PUT)) = Fin 1"
    if "d1 S K r sigma T \<noteq> NaN" for S K r sigma T
  proof -
    from norm_cdf_range [OF that] obtain n
      where n: "norm_cdf (d1 S K r sigma T) = Fin n" "0 \<le> n" "n \<le> 1" by auto
    from sub_one(3) [OF n(2,3)] show ?thesis
      unfolding delta_CALL delta_PUT n(1) .
  qed
  have nan: "dsub (delta (compute_greeks S K r sigma T CALL))
                  (delta (compute_greeks S K r sigma T PUT)) = NaN"
    if "d1 S K r sigma T = NaN"
    using that unfolding delta_CALL delta_PUT by (simp add: norm_cdf_NaN dsub_NaN)
  have box: "d1 (Fin s) (Fin k) (Fin rho) (Fin v) (Fin t) \<noteq> NaN"
    if "0 < s \<and> 0 < k \<and> pw (- 1000) \<le> s / k \<and> s / k \<le> pw 1000
        \<and> pw (- 500) \<le> v \<and> v \<le> pw 500 \<and> pw (- 1000) \<le> t \<and> t \<le> pw 1000"
    using d1_d2_not_NaN(1) [of s k v t rho] that by blast
  show ?thesis using one nan box by blast
qed

theorem delta_call_minus_put_witness:
  "d1 (Fin 100) (Fin 100) (Fin 0) (Fin (1/2)) (Fin (1/4)) \<noteq> NaN
   \<and> dsub (delta (compute_greeks (Fin 100) (Fin 100) (Fin 0) (Fin (1/2)) (Fin (1/4)) CALL))
          (delta (compute_greeks (Fin 100) (Fin 100) (Fin 0) (Fin (1/2)) (Fin (1/4)) PUT)) = Fin 1
   \<and> d1 (Fin 120) (Fin 100) (Fin (1/20)) (Fin (1/5)) NaN = NaN
   \<and> dsub (delta (compute_greeks (Fin 120) (Fin 100) (Fin (1/20)) (Fin (1/5)) NaN CALL))
          (delta (compute_greeks (Fin 120) (Fin 100) (Fin (1/20)) (Fin (1/5)) NaN PUT)) = NaN
   \<and> (0::real) < 100 \<and> pw (- 1000) \<le> (100::real) / 100 \<and> (100::real) / 100 \<le> pw 1000
   \<and> pw (- 500) \<le> 1/2 \<and> 1/2 \<le> pw 500 \<and> pw (- 1000) \<le> 1/4 \<and> 1/4 \<le> pw 1000
   \<and> dsub (delta (compute_greeks (Fin 100) (Fin 100) (Fin (1/16)) (Fin (1/2)) (Fin (1/4)) CALL))
          (delta (compute_greeks (Fin 100) (Fin 100) (Fin (1/16)) (Fin (1/2)) (Fin (1/4)) PUT))
       = Fin 1"
proof -
  have n: "d1 (Fin 120) (Fin 100) (Fin (1/20)) (Fin (1/5)) NaN = NaN"
    by (simp add: d1_def dmul_NaN ddiv_NaN)
  show ?thesis
    using delta_call_minus_put [of "Fin 100" "Fin 100" "Fin 0" "Fin (1/2)" "Fin (1/4)"
        100 100 "1/2" "1/4" "1/16"]
      delta_call_minus_put [of "Fin 120" "Fin 100" "Fin (1/20)" "Fin (1/5)" NaN
        100 100 "1/2" "1/4" "1/16"]
      d1_sample n sample_box
    by simp
qed

end
